theory Spec2Isabelle
  imports Main
begin

section \<open>JavaScript values\<close>

text \<open>
  Keys and values of a \<open>KVStorageArea\<close> are arbitrary JavaScript values (\<open>K = any\<close>,
  \<open>V = any\<close>).  The datatype keeps the kinds of value that the storage area tells apart:
  \<open>undefined\<close>, the IndexedDB key types, values that cannot be cloned, the database
  handle an open request yields, and the exceptions the operations reject with.
\<close>

datatype jsval =
    Undefined
  | Null
  | Boolean bool
  | Number int
  | NaN
  | Str string
  | Date int
  | ArrayBuffer "nat list"
  | Array "jsval list"
  | Function nat
  | IDBDatabase nat
  | DOMException string
  | TypeError

text \<open>
  Modelled from the spec: \<open>allowedAsAKey\<close> is called by \<open>get\<close> and \<open>delete\<close> but its
  source is not part of the repository files.  Section 4.1 of the specification: numbers,
  strings, ordered sequences of valid keys, byte buffers, timestamps, and nested
  combinations thereof; \<open>undefined\<close> is never a valid key.
\<close>

fun allowedAsAKey :: "jsval \<Rightarrow> bool" where
  "allowedAsAKey (Number n) = True"
| "allowedAsAKey (Str s) = True"
| "allowedAsAKey (Date d) = True"
| "allowedAsAKey (ArrayBuffer b) = True"
| "allowedAsAKey (Array ks) = list_all allowedAsAKey ks"
| "allowedAsAKey _ = False"

text \<open>
  The serialization mechanism of the engine (structured clone): functions and live
  handles cannot be stored, everything else in the datatype can.
\<close>

fun serializable :: "jsval \<Rightarrow> bool" where
  "serializable (Function f) = False"
| "serializable (IDBDatabase d) = False"
| "serializable (Array vs) = list_all serializable vs"
| "serializable _ = True"

section \<open>Promises, jobs and event listeners\<close>

datatype outcome = Fulfilled jsval | Rejected jsval

datatype promise_state = Pending | Settled outcome

datatype mode = Readonly | Readwrite

text \<open>
  The three closures passed as \<open>steps\<close> to \<open>performADatabaseOperation\<close>, with the
  variables they capture.
\<close>

datatype steps = SetSteps jsval jsval | GetSteps jsval | DeleteSteps jsval

text \<open>
  The functions handed to \<open>then\<close> and \<open>finally\<close>:
  \<^item> \<open>Operation mode steps\<close> is the fulfilment handler \<open>(database) => {...}\<close> of
    \<open>performADatabaseOperation\<close> (there is no rejection handler);
  \<^item> \<open>ClearFinally\<close> is the callback \<open>clear\<close> passes to \<open>finally\<close>;
  \<^item> \<open>ValueThunk o\<close> is the function \<open>finally\<close> chains after its callback to restore the
    outcome \<open>o\<close> of the promise it was called on;
  \<^item> \<open>ResolveFunctions p\<close> is the pair of resolving functions of promise \<open>p\<close>, which a
    promise resolved with another promise passes to that promise's \<open>then\<close>.
\<close>

datatype handler =
    Operation mode steps
  | ClearFinally
  | ValueThunk outcome
  | ResolveFunctions nat

datatype job = ReactionJob handler nat outcome | ThenableJob nat nat

datatype target = Request nat | Transaction nat

datatype event_type = Success | Error | Complete | Abort

text \<open>
  The closures registered as event listeners: \<open>() => resolve()\<close>,
  \<open>() => reject(target.error)\<close>, \<open>() => resolve(request.result)\<close>, and the reset of the
  cached database promise after a failed open.
\<close>

datatype callback =
    ResolveUndefined nat
  | RejectWithError nat
  | ResolveWithResult nat
  | ResetDatabasePromise

section \<open>The storage engine as the area sees it\<close>

datatype call =
    OpenCall string
  | DeleteDatabaseCall string
  | TransactionCall jsval mode
  | PutCall nat jsval jsval
  | DeleteCall nat jsval
  | GetCall nat jsval

datatype request = OpenRequest | DeleteDatabaseRequest | GetRequest jsval

text \<open>
  The object the getter \<open>backingStore\<close> makes.  Its \<open>database\<close> is what the getter read
  for it: a string, or \<open>undefined\<close> (\<open>None\<close>).
\<close>

record descriptor =
  database :: "string option"
  store :: string
  version :: nat
  frozen :: bool

text \<open>
  The state: the three internal slots of the area (the WeakMaps \<open>DatabaseName\<close>,
  \<open>DatabasePromise\<close> and \<open>BackingStoreObject\<close> at the area's entry; \<open>None\<close> is \<open>null\<close>),
  the two private fields \<open>#DatabaseName\<close> and \<open>#BackingStoreObject\<close> that the getter
  \<open>backingStore\<close> names (\<open>None\<close> is \<open>undefined\<close>, the value of a field that was never
  assigned), the promises the area has created with their reactions, the queue of promise jobs, and
  the engine: the listeners on its requests and transactions, the log of the calls made to
  it, the requests that have not had their terminal event, the writes staged by each
  transaction, and the entries of the object store.
\<close>

record state =
  DatabaseName :: "string option"
  DatabasePromise :: "nat option"
  BackingStoreObject :: "descriptor option"
  private_DatabaseName :: "string option"
  private_BackingStoreObject :: "descriptor option"
  assertion_failures :: nat
  pstate :: "nat \<Rightarrow> promise_state"
  reactions :: "nat \<Rightarrow> (handler \<times> nat) list"
  next_promise :: nat
  jobs :: "job list"
  listeners :: "(target \<times> event_type \<times> callback) list"
  calls :: "call list"
  requests :: "(nat \<times> request) list"
  next_request :: nat
  next_transaction :: nat
  staged :: "(nat \<times> jsval \<times> jsval option) list"
  entries :: "jsval \<Rightarrow> jsval option"

subsection \<open>The promise machinery of the language\<close>

definition new_promise :: "state \<Rightarrow> nat \<times> state" where
  "new_promise s = (next_promise s, s\<lparr>next_promise := Suc (next_promise s)\<rparr>)"

text \<open>
  Settling a pending promise queues one job per registered reaction; settling a settled
  promise does nothing (the resolving functions of a promise work once).
\<close>

definition settle :: "nat \<Rightarrow> outcome \<Rightarrow> state \<Rightarrow> state" where
  "settle p out s =
     (case pstate s p of
        Settled old \<Rightarrow> s
      | Pending \<Rightarrow>
          s\<lparr>pstate := (pstate s)(p := Settled out),
            reactions := (reactions s)(p := []),
            jobs := jobs s @ map (\<lambda>(h, d). ReactionJob h d out) (reactions s p)\<rparr>)"

text \<open>\<open>p.then(h)\<close>: a new derived promise; the reaction waits, or is queued at once.\<close>

definition then_promise :: "nat \<Rightarrow> handler \<Rightarrow> state \<Rightarrow> nat \<times> state" where
  "then_promise p h s =
     (let (d, s1) = new_promise s in
      case pstate s1 p of
        Pending \<Rightarrow> (d, s1\<lparr>reactions := (reactions s1)(p := reactions s1 p @ [(h, d)])\<rparr>)
      | Settled out \<Rightarrow> (d, s1\<lparr>jobs := jobs s1 @ [ReactionJob h d out]\<rparr>))"

text \<open>\<open>Promise.reject(e)\<close>.\<close>

definition promise_reject :: "jsval \<Rightarrow> state \<Rightarrow> nat \<times> state" where
  "promise_reject e s = (let (p, s1) = new_promise s in (p, settle p (Rejected e) s1))"

subsection \<open>Event listeners\<close>

text \<open>
  Modelled from the spec: \<open>addASimpleEventListener\<close> is called by the operations but its
  source is not part of the repository files.  It registers the callback for one event
  type on a request or a transaction (Section 4.3, step 4).
\<close>

definition addASimpleEventListener :: "target \<Rightarrow> event_type \<Rightarrow> callback \<Rightarrow> state \<Rightarrow> state" where
  "addASimpleEventListener tg ty cb s = s\<lparr>listeners := listeners s @ [(tg, ty, cb)]\<rparr>"

fun run_callback :: "jsval \<Rightarrow> jsval \<Rightarrow> state \<Rightarrow> callback \<Rightarrow> state" where
  "run_callback res err s (ResolveUndefined p) = settle p (Fulfilled Undefined) s"
| "run_callback res err s (RejectWithError p) = settle p (Rejected err) s"
| "run_callback res err s (ResolveWithResult p) = settle p (Fulfilled res) s"
| "run_callback res err s ResetDatabasePromise = s\<lparr>DatabasePromise := None\<rparr>"

text \<open>
  The engine fires an event of type \<open>ty\<close> at \<open>tg\<close> while the target's \<open>result\<close> and
  \<open>error\<close> properties are \<open>res\<close> and \<open>err\<close>: the listeners run in the order they were added.
\<close>

definition dispatch :: "target \<Rightarrow> event_type \<Rightarrow> jsval \<Rightarrow> jsval \<Rightarrow> state \<Rightarrow> state" where
  "dispatch tg ty res err s =
     foldl (run_callback res err) s
       (map (\<lambda>(tg', ty', cb). cb) (filter (\<lambda>(tg', ty', cb). tg' = tg \<and> ty' = ty) (listeners s)))"

section \<open>The storage area\<close>

text \<open>\<open>DatabaseName.get(area)!\<close> where a string is needed.\<close>

definition database_name :: "state \<Rightarrow> string" where
  "database_name s = (case DatabaseName s of None \<Rightarrow> ''undefined'' | Some n \<Rightarrow> n)"

text \<open>
  The constructor.  It sets the three WeakMaps and assigns no private field.  The object
  store the area will open lives in the engine and may hold entries from an earlier
  session: they are the second argument.
\<close>

definition KVStorageArea :: "string \<Rightarrow> (jsval \<Rightarrow> jsval option) \<Rightarrow> state" where
  "KVStorageArea name stored =
     \<lparr>DatabaseName = Some (''kv-storage:'' @ name),
      DatabasePromise = None,
      BackingStoreObject = None,
      private_DatabaseName = None,
      private_BackingStoreObject = None,
      assertion_failures = 0,
      pstate = (\<lambda>p. Pending),
      reactions = (\<lambda>p. []),
      next_promise = 0,
      jobs = [],
      listeners = [],
      calls = [],
      requests = [],
      next_request = 0,
      next_transaction = 0,
      staged = [],
      entries = stored\<rparr>"

text \<open>
  Modelled from the spec: \<open>initializeTheDatabasePromise\<close> is called by
  \<open>performADatabaseOperation\<close> but its source is not part of the repository files.
  Section 4.2: start exactly one open against the engine using the area's fixed location
  and cache the resulting future; on open failure the future fails and the cached future
  is cleared so that the next caller retries.
\<close>

definition initializeTheDatabasePromise :: "state \<Rightarrow> state" where
  "initializeTheDatabasePromise s =
     (let (p, s1) = new_promise s;
          s2 = s1\<lparr>DatabasePromise := Some p\<rparr>;
          r = next_request s2;
          s3 = s2\<lparr>calls := calls s2 @ [OpenCall (database_name s2)],
                  requests := requests s2 @ [(r, OpenRequest)],
                  next_request := Suc r\<rparr>;
          s4 = addASimpleEventListener (Request r) Success (ResolveWithResult p) s3;
          s5 = addASimpleEventListener (Request r) Error (RejectWithError p) s4
      in addASimpleEventListener (Request r) Error ResetDatabasePromise s5)"

text \<open>
  Modelled from the spec: \<open>deletingTheDatabase\<close> is called by \<open>clear\<close> but its source is
  not part of the repository files.  Section 4.5, steps 3 and 4: issue a
  destroy-entire-store request for the area's fixed location; resolve when destruction
  completes, reject if it fails.
\<close>

definition deletingTheDatabase :: "string \<Rightarrow> state \<Rightarrow> nat \<times> state" where
  "deletingTheDatabase name s =
     (let (q, s1) = new_promise s;
          r = next_request s1;
          s2 = s1\<lparr>calls := calls s1 @ [DeleteDatabaseCall name],
                  requests := requests s1 @ [(r, DeleteDatabaseRequest)],
                  next_request := Suc r\<rparr>;
          s3 = addASimpleEventListener (Request r) Success (ResolveUndefined q) s2
      in (q, addASimpleEventListener (Request r) Error (RejectWithError q) s3))"

text \<open>\<open>console.assert\<close> reports a failed assertion and goes on.\<close>

definition console_assert :: "bool \<Rightarrow> state \<Rightarrow> state" where
  "console_assert b s = (if b then s else s\<lparr>assertion_failures := Suc (assertion_failures s)\<rparr>)"

text \<open>
  \<open>performADatabaseOperation\<close>.  The result is the promise returned, or the exception
  thrown where \<open>DatabasePromise.get(area)!\<close> is still \<open>null\<close> at the call of \<open>then\<close>.
\<close>

definition performADatabaseOperation :: "mode \<Rightarrow> steps \<Rightarrow> state \<Rightarrow> (jsval + nat) \<times> state" where
  "performADatabaseOperation m st s =
     (let s1 = console_assert (DatabaseName s \<noteq> None) s;
          s2 = (if DatabasePromise s1 = None then initializeTheDatabasePromise s1 else s1)
      in case DatabasePromise s2 of
           None \<Rightarrow> (Inl TypeError, s2)
         | Some p \<Rightarrow> (let (d, s3) = then_promise p (Operation m st) s2 in (Inr d, s3)))"

definition set_op :: "jsval \<Rightarrow> jsval \<Rightarrow> state \<Rightarrow> (jsval + nat) \<times> state" where
  "set_op key val s = performADatabaseOperation Readwrite (SetSteps key val) s"

definition get :: "jsval \<Rightarrow> state \<Rightarrow> (jsval + nat) \<times> state" where
  "get key s =
     (if \<not> allowedAsAKey key
      then (let (p, s1) = promise_reject (DOMException ''DataError'') s in (Inr p, s1))
      else performADatabaseOperation Readonly (GetSteps key) s)"

definition delete :: "jsval \<Rightarrow> state \<Rightarrow> (jsval + nat) \<times> state" where
  "delete key s =
     (if \<not> allowedAsAKey key
      then (let (p, s1) = promise_reject (DOMException ''DataError'') s in (Inr p, s1))
      else performADatabaseOperation Readwrite (DeleteSteps key) s)"

definition clear :: "state \<Rightarrow> nat \<times> state" where
  "clear s =
     (case DatabasePromise s of
        Some p \<Rightarrow> then_promise p ClearFinally s
      | None \<Rightarrow> deletingTheDatabase (database_name s) s)"

text \<open>\<open>Object.freeze\<close>.\<close>

definition Object_freeze :: "descriptor \<Rightarrow> descriptor" where
  "Object_freeze d = d\<lparr>frozen := True\<rparr>"

text \<open>
  The getter \<open>backingStore\<close>:
  \<open>this.#BackingStoreObject ??= Object.freeze({ database: this.#DatabaseName, store: "store", version: 1 })\<close>.
  It reads and writes the private fields, not the WeakMaps of the constructor.  The class
  declares neither field and nothing assigns \<open>#DatabaseName\<close>; the fields are read here as
  declared and unassigned, the only reading under which the getter runs at all.
\<close>

definition backingStore :: "state \<Rightarrow> descriptor \<times> state" where
  "backingStore s =
     (case private_BackingStoreObject s of
        Some d \<Rightarrow> (d, s)
      | None \<Rightarrow>
          (let d = Object_freeze
                 \<lparr>database = private_DatabaseName s, store = ''store'', version = 1,
                  frozen = False\<rparr>
           in (d, s\<lparr>private_BackingStoreObject := Some d\<rparr>)))"

section \<open>The engine's object store and its events\<close>

text \<open>
  The methods of \<open>IDBObjectStore\<close> as the operations call them, on the store of
  transaction \<open>t\<close>.  Each call is logged.  A key that is not valid throws a
  \<open>DataError\<close>, a value that cannot be cloned a \<open>DataCloneError\<close>; the first component of
  the result is the exception thrown, if any.  Writes are staged in the transaction and
  reach the store when it completes.
\<close>

definition store_put :: "nat \<Rightarrow> jsval \<Rightarrow> jsval \<Rightarrow> state \<Rightarrow> jsval option \<times> state" where
  "store_put t val key s =
     (let s1 = s\<lparr>calls := calls s @ [PutCall t val key]\<rparr> in
      if \<not> allowedAsAKey key then (Some (DOMException ''DataError''), s1)
      else if \<not> serializable val then (Some (DOMException ''DataCloneError''), s1)
      else (None, s1\<lparr>staged := staged s1 @ [(t, key, Some val)]\<rparr>))"

definition store_delete :: "nat \<Rightarrow> jsval \<Rightarrow> state \<Rightarrow> jsval option \<times> state" where
  "store_delete t key s =
     (let s1 = s\<lparr>calls := calls s @ [DeleteCall t key]\<rparr> in
      if \<not> allowedAsAKey key then (Some (DOMException ''DataError''), s1)
      else (None, s1\<lparr>staged := staged s1 @ [(t, key, None)]\<rparr>))"

definition store_get :: "nat \<Rightarrow> jsval \<Rightarrow> state \<Rightarrow> (jsval + nat) \<times> state" where
  "store_get t key s =
     (let s1 = s\<lparr>calls := calls s @ [GetCall t key]\<rparr>; r = next_request s1 in
      if \<not> allowedAsAKey key then (Inl (DOMException ''DataError''), s1)
      else (Inr r, s1\<lparr>requests := requests s1 @ [(r, GetRequest key)], next_request := Suc r\<rparr>))"

definition commit :: "nat \<Rightarrow> state \<Rightarrow> state" where
  "commit t s =
     s\<lparr>entries := foldl (\<lambda>m (t', k, w). if t' = t then m(k := w) else m) (entries s) (staged s),
       staged := filter (\<lambda>(t', k, w). t' \<noteq> t) (staged s)\<rparr>"

definition discard :: "nat \<Rightarrow> state \<Rightarrow> state" where
  "discard t s = s\<lparr>staged := filter (\<lambda>(t', k, w). t' \<noteq> t) (staged s)\<rparr>"

definition forget_request :: "nat \<Rightarrow> state \<Rightarrow> state" where
  "forget_request r s = s\<lparr>requests := filter (\<lambda>(r', rq). r' \<noteq> r) (requests s)\<rparr>"

text \<open>
  A request has exactly one terminal event, \<open>success\<close> or \<open>error\<close> (Section 6): an event
  for a request that is not outstanding is not delivered.  The result of an open request
  is the database handle, of a get request the stored value or \<open>undefined\<close>; a successful
  delete-database request leaves the store empty.
\<close>

definition request_succeeds :: "nat \<Rightarrow> state \<Rightarrow> state" where
  "request_succeeds r s =
     (case map_of (requests s) r of
        None \<Rightarrow> s
      | Some OpenRequest \<Rightarrow>
          dispatch (Request r) Success (IDBDatabase r) Null (forget_request r s)
      | Some DeleteDatabaseRequest \<Rightarrow>
          dispatch (Request r) Success Undefined Null
            ((forget_request r s)\<lparr>staged := [], entries := (\<lambda>k. None)\<rparr>)
      | Some (GetRequest key) \<Rightarrow>
          dispatch (Request r) Success
            (case entries s key of None \<Rightarrow> Undefined | Some v \<Rightarrow> v) Null (forget_request r s))"

definition request_fails :: "nat \<Rightarrow> jsval \<Rightarrow> state \<Rightarrow> state" where
  "request_fails r e s =
     (case map_of (requests s) r of
        None \<Rightarrow> s
      | Some rq \<Rightarrow> dispatch (Request r) Error Undefined e (forget_request r s))"

text \<open>
  The terminal events of a transaction, with the value of \<open>transaction.error\<close> at the
  event.  They are delivered whenever the engine fires them, also more than once.
\<close>

definition transaction_completes :: "nat \<Rightarrow> state \<Rightarrow> state" where
  "transaction_completes t s = dispatch (Transaction t) Complete Undefined Null (commit t s)"

definition transaction_errors :: "nat \<Rightarrow> jsval \<Rightarrow> state \<Rightarrow> state" where
  "transaction_errors t e s = dispatch (Transaction t) Error Undefined e (discard t s)"

definition transaction_aborts :: "nat \<Rightarrow> jsval \<Rightarrow> state \<Rightarrow> state" where
  "transaction_aborts t e s = dispatch (Transaction t) Abort Undefined e (discard t s)"

text \<open>The open attempts in flight: the open requests without a terminal event.\<close>

definition opens_in_flight :: "state \<Rightarrow> nat list" where
  "opens_in_flight s = map fst (filter (\<lambda>(r, rq). rq = OpenRequest) (requests s))"

section \<open>The closures of the operations\<close>

datatype completion = Return jsval | ReturnPromise nat | Throw jsval

text \<open>The \<open>steps\<close> of \<open>set\<close>, run on transaction \<open>t\<close> and its store.\<close>

definition set_steps :: "jsval \<Rightarrow> jsval \<Rightarrow> nat \<Rightarrow> state \<Rightarrow> completion \<times> state" where
  "set_steps key val t s =
     (case (if val = Undefined then store_delete t key s else store_put t val key s) of
        (Some e, s1) \<Rightarrow> (Throw e, s1)
      | (None, s1) \<Rightarrow>
          (let (p, s2) = new_promise s1;
               s3 = addASimpleEventListener (Transaction t) Complete (ResolveUndefined p) s2;
               s4 = addASimpleEventListener (Transaction t) Error (RejectWithError p) s3;
               s5 = addASimpleEventListener (Transaction t) Abort (RejectWithError p) s4
           in (ReturnPromise p, s5)))"

text \<open>The \<open>steps\<close> of \<open>get\<close>.\<close>

definition get_steps :: "jsval \<Rightarrow> nat \<Rightarrow> state \<Rightarrow> completion \<times> state" where
  "get_steps key t s =
     (case store_get t key s of
        (Inl e, s1) \<Rightarrow> (Throw e, s1)
      | (Inr r, s1) \<Rightarrow>
          (let (p, s2) = new_promise s1;
               s3 = addASimpleEventListener (Request r) Success (ResolveWithResult p) s2;
               s4 = addASimpleEventListener (Request r) Error (RejectWithError p) s3
           in (ReturnPromise p, s4)))"

text \<open>The \<open>steps\<close> of \<open>delete\<close>.\<close>

definition delete_steps :: "jsval \<Rightarrow> nat \<Rightarrow> state \<Rightarrow> completion \<times> state" where
  "delete_steps key t s =
     (case store_delete t key s of
        (Some e, s1) \<Rightarrow> (Throw e, s1)
      | (None, s1) \<Rightarrow>
          (let (p, s2) = new_promise s1;
               s3 = addASimpleEventListener (Transaction t) Complete (ResolveUndefined p) s2;
               s4 = addASimpleEventListener (Transaction t) Error (RejectWithError p) s3;
               s5 = addASimpleEventListener (Transaction t) Abort (RejectWithError p) s4
           in (ReturnPromise p, s5)))"

fun run_steps :: "steps \<Rightarrow> nat \<Rightarrow> state \<Rightarrow> completion \<times> state" where
  "run_steps (SetSteps key val) t s = set_steps key val t s"
| "run_steps (GetSteps key) t s = get_steps key t s"
| "run_steps (DeleteSteps key) t s = delete_steps key t s"

text \<open>
  The fulfilment handler of \<open>performADatabaseOperation\<close>: a transaction on the store
  \<open>"store"\<close> of the database, then the steps.
\<close>

definition operation :: "mode \<Rightarrow> steps \<Rightarrow> jsval \<Rightarrow> state \<Rightarrow> completion \<times> state" where
  "operation m st db s =
     (let t = next_transaction s;
          s1 = s\<lparr>calls := calls s @ [TransactionCall db m], next_transaction := Suc t\<rparr>
      in run_steps st t s1)"

text \<open>The callback \<open>clear\<close> passes to \<open>finally\<close>.\<close>

definition clear_callback :: "state \<Rightarrow> nat \<times> state" where
  "clear_callback s =
     (let s1 = s\<lparr>DatabasePromise := None\<rparr>
      in deletingTheDatabase (database_name s1) s1)"

section \<open>Running the promise jobs\<close>

text \<open>
  A handler is called with the outcome of the promise it was registered on.  A promise
  rejected with \<open>e\<close> that has no rejection handler passes \<open>e\<close> on.  The reaction that
  \<open>finally\<close> registers calls its callback, waits for the promise the callback returns,
  and then restores the original outcome.
\<close>

fun run_handler :: "handler \<Rightarrow> outcome \<Rightarrow> state \<Rightarrow> completion \<times> state" where
  "run_handler (Operation m st) (Fulfilled db) s = operation m st db s"
| "run_handler (Operation m st) (Rejected e) s = (Throw e, s)"
| "run_handler ClearFinally out s =
     (let (q, s1) = clear_callback s;
          (d, s2) = then_promise q (ValueThunk out) s1
      in (ReturnPromise d, s2))"
| "run_handler (ValueThunk (Fulfilled v)) (Fulfilled x) s = (Return v, s)"
| "run_handler (ValueThunk (Rejected e)) (Fulfilled x) s = (Throw e, s)"
| "run_handler (ValueThunk orig) (Rejected e) s = (Throw e, s)"
| "run_handler (ResolveFunctions p) out s = (Return Undefined, settle p out s)"

text \<open>
  The derived promise of a reaction is resolved with what the handler returned: a value
  fulfils it, an exception rejects it, a promise makes it follow that promise through a
  job of its own.
\<close>

fun resolve_with :: "nat \<Rightarrow> completion \<Rightarrow> state \<Rightarrow> state" where
  "resolve_with d (Return v) s = settle d (Fulfilled v) s"
| "resolve_with d (Throw e) s = settle d (Rejected e) s"
| "resolve_with d (ReturnPromise q) s = s\<lparr>jobs := jobs s @ [ThenableJob d q]\<rparr>"

fun run_job :: "job \<Rightarrow> state \<Rightarrow> state" where
  "run_job (ReactionJob h d out) s = (let (c, s1) = run_handler h out s in resolve_with d c s1)"
| "run_job (ThenableJob d q) s = snd (then_promise q (ResolveFunctions d) s)"

section \<open>Interleavings\<close>

text \<open>
  What can happen to an area, one step at a time: a caller invokes a method, the event
  loop runs the next promise job, or the engine fires an event.  Any order is allowed.
\<close>

datatype input =
    CallSet jsval jsval
  | CallGet jsval
  | CallDelete jsval
  | CallClear
  | ReadBackingStore
  | Tick
  | RequestSucceeds nat
  | RequestFails nat jsval
  | TransactionCompletes nat
  | TransactionErrors nat jsval
  | TransactionAborts nat jsval

fun step :: "state \<Rightarrow> input \<Rightarrow> state" where
  "step s (CallSet key val) = snd (set_op key val s)"
| "step s (CallGet key) = snd (get key s)"
| "step s (CallDelete key) = snd (delete key s)"
| "step s CallClear = snd (clear s)"
| "step s ReadBackingStore = snd (backingStore s)"
| "step s Tick = (case jobs s of [] \<Rightarrow> s | j # js \<Rightarrow> run_job j (s\<lparr>jobs := js\<rparr>))"
| "step s (RequestSucceeds r) = request_succeeds r s"
| "step s (RequestFails r e) = request_fails r e s"
| "step s (TransactionCompletes t) = transaction_completes t s"
| "step s (TransactionErrors t e) = transaction_errors t e s"
| "step s (TransactionAborts t e) = transaction_aborts t e s"

definition run :: "state \<Rightarrow> input list \<Rightarrow> state" where
  "run s ins = foldl step s ins"

section \<open>Invariants of the interleavings\<close>

text \<open>
  A callback of \<open>clear\<close> is registered on some promise or queued as a job.
\<close>

definition clear_waiting :: "state \<Rightarrow> bool" where
  "clear_waiting s =
     ((\<exists>p d. (ClearFinally, d) \<in> set (reactions s p)) \<or>
      (\<exists>d out. ReactionJob ClearFinally d out \<in> set (jobs s)))"

text \<open>
  The listeners that reset the cache sit on the error event of open requests only.
\<close>

definition reset_listeners_ok :: "state \<Rightarrow> bool" where
  "reset_listeners_ok s =
     ((\<forall>t ty. (Transaction t, ty, ResetDatabasePromise) \<notin> set (listeners s)) \<and>
      (\<forall>r ty. (Request r, ty, ResetDatabasePromise) \<in> set (listeners s) \<longrightarrow>
         ty = Error \<and> r < next_request s \<and>
         (\<forall>rq. (r, rq) \<in> set (requests s) \<longrightarrow> rq = OpenRequest)) \<and>
      (\<forall>r rq. (r, rq) \<in> set (requests s) \<longrightarrow> r < next_request s))"

text \<open>
  At most one open request is in flight, and none when the cache is empty.
\<close>

definition single_open :: "state \<Rightarrow> bool" where
  "single_open s =
     (length (opens_in_flight s) \<le> 1 \<and> (DatabasePromise s = None \<longrightarrow> opens_in_flight s = []))"

text \<open>
  The invariant behind the sharing of the open.
\<close>

definition open_inv :: "state \<Rightarrow> bool" where
  "open_inv s = (single_open s \<and> reset_listeners_ok s)"

text \<open>
  Every promise settled in \<open>s\<close> has the same outcome in \<open>s'\<close>.
\<close>

definition settled_kept :: "state \<Rightarrow> state \<Rightarrow> bool" where
  "settled_kept s s' = (\<forall>p out. pstate s p = Settled out \<longrightarrow> pstate s' p = Settled out)"

text \<open>An engine event changes nothing, or dispatches to the listeners after a change to the engine's own data.\<close>

definition engine_only :: "state \<Rightarrow> state \<Rightarrow> bool" where
  "engine_only s s' =
     (pstate s' = pstate s \<and> reactions s' = reactions s \<and> jobs s' = jobs s \<and>
      listeners s' = listeners s \<and> next_promise s' = next_promise s \<and>
      DatabasePromise s' = DatabasePromise s \<and> calls s' = calls s \<and>
      next_transaction s' = next_transaction s \<and> DatabaseName s' = DatabaseName s)"

text \<open>
  The engine events among the inputs: the target, the event and the error they carry.
\<close>

fun engine_event :: "input \<Rightarrow> (target \<times> event_type \<times> jsval) option" where
  "engine_event (RequestSucceeds r) = Some (Request r, Success, Null)"
| "engine_event (RequestFails r e) = Some (Request r, Error, e)"
| "engine_event (TransactionCompletes t) = Some (Transaction t, Complete, Null)"
| "engine_event (TransactionErrors t e) = Some (Transaction t, Error, e)"
| "engine_event (TransactionAborts t e) = Some (Transaction t, Abort, e)"
| "engine_event i = None"

text \<open>
  What a listener, a handler and a job can settle.
\<close>

fun callback_settles :: "callback \<Rightarrow> nat \<Rightarrow> bool" where
  "callback_settles (ResolveUndefined p) x = (p = x)"
| "callback_settles (RejectWithError p) x = (p = x)"
| "callback_settles (ResolveWithResult p) x = (p = x)"
| "callback_settles ResetDatabasePromise x = False"

fun handler_settles :: "handler \<Rightarrow> nat \<Rightarrow> bool" where
  "handler_settles (ResolveFunctions p) x = (p = x)"
| "handler_settles h x = False"

fun job_settles :: "job \<Rightarrow> nat \<Rightarrow> bool" where
  "job_settles (ReactionJob h d out) x = (d = x \<or> handler_settles h x)"
| "job_settles (ThenableJob d q) x = (d = x)"

text \<open>
  Promise \<open>x\<close> is pending, and the listeners, jobs and reactions that can settle it are among
  \<open>L\<close>, \<open>J\<close> and \<open>R\<close>.
\<close>

definition settles_only ::
  "(target \<times> event_type \<times> callback \<Rightarrow> bool) \<Rightarrow> (job \<Rightarrow> bool) \<Rightarrow>
   (handler \<times> nat \<Rightarrow> bool) \<Rightarrow> state \<Rightarrow> nat \<Rightarrow> bool" where
  "settles_only L J R s x =
     (pstate s x = Pending \<and>
      (\<forall>tg ty cb. (tg, ty, cb) \<in> set (listeners s) \<longrightarrow> callback_settles cb x \<longrightarrow> L (tg, ty, cb)) \<and>
      (\<forall>j. j \<in> set (jobs s) \<longrightarrow> job_settles j x \<longrightarrow> J j) \<and>
      (\<forall>p h d. (h, d) \<in> set (reactions s p) \<longrightarrow> d = x \<or> handler_settles h x \<longrightarrow> R (h, d)))"

text \<open>
  A reaction in \<open>R\<close> becomes a job in \<open>J\<close>.
\<close>

definition moves :: "(job \<Rightarrow> bool) \<Rightarrow> (handler \<times> nat \<Rightarrow> bool) \<Rightarrow> bool" where
  "moves J R = (\<forall>h d out. R (h, d) \<longrightarrow> J (ReactionJob h d out))"

text \<open>
  The calls that go through \<open>performADatabaseOperation\<close>.
\<close>

fun is_operation :: "input \<Rightarrow> bool" where
  "is_operation (CallSet key val) = True"
| "is_operation (CallGet key) = True"
| "is_operation (CallDelete key) = True"
| "is_operation i = False"

text \<open>
  Nothing mentions a promise that has not been made yet.
\<close>

definition fresh_above :: "state \<Rightarrow> bool" where
  "fresh_above s = (\<forall>x. next_promise s \<le> x \<longrightarrow> settles_only (\<lambda>l. False) (\<lambda>j. False) (\<lambda>r. False) s x)"

text \<open>
  The job and the reaction of the callback of the \<open>clear\<close> that returned \<open>c\<close>.
\<close>

definition clear_job :: "nat \<Rightarrow> job \<Rightarrow> bool" where
  "clear_job c j = (\<exists>out. j = ReactionJob ClearFinally c out)"

definition clear_reaction :: "nat \<Rightarrow> handler \<times> nat \<Rightarrow> bool" where
  "clear_reaction c r = (r = (ClearFinally, c))"

text \<open>
  The cache is empty, or \<open>c\<close> is pending and only the callback of its \<open>clear\<close> can settle it.
\<close>

definition clear_pending :: "state \<Rightarrow> nat \<Rightarrow> bool" where
  "clear_pending s c =
     (DatabasePromise s = None \<or>
      (c < next_promise s \<and> settles_only (\<lambda>l. False) (clear_job c) (clear_reaction c) s c))"

subsection \<open>The promise of a write\<close>






text \<open>
  Promise \<open>d\<close> was resolved with promise \<open>p\<close>: it is pending or has the state of \<open>p\<close>, and only
  the resolving functions \<open>p\<close> hands its outcome to can settle it.
\<close>

definition follows :: "state \<Rightarrow> nat \<Rightarrow> nat \<Rightarrow> bool" where
  "follows s d p =
     (d < next_promise s \<and> p < next_promise s \<and> d \<noteq> p \<and>
      (pstate s d = Pending \<or> pstate s d = pstate s p) \<and>
      (\<forall>tg ty cb. (tg, ty, cb) \<in> set (listeners s) \<longrightarrow> \<not> callback_settles cb d) \<and>
      (\<forall>h out. ReactionJob h d out \<notin> set (jobs s)) \<and>
      (\<forall>d' out. ReactionJob (ResolveFunctions d) d' out \<in> set (jobs s) \<longrightarrow>
         pstate s p = Settled out) \<and>
      (\<forall>q. q \<noteq> p \<longrightarrow> ThenableJob d q \<notin> set (jobs s)) \<and>
      (\<forall>p' h. (h, d) \<notin> set (reactions s p')) \<and>
      (\<forall>p' d'. p' \<noteq> p \<longrightarrow> (ResolveFunctions d, d') \<notin> set (reactions s p')) \<and>
      (\<forall>d'. (ResolveFunctions d, d') \<in> set (reactions s p) \<longrightarrow> pstate s p = Pending))"

text \<open>
  From \<open>s\<close> to \<open>s'\<close> settled promises stay, queued jobs stay, and a registered reaction stays
  or has become a job.
\<close>

definition grows :: "state \<Rightarrow> state \<Rightarrow> bool" where
  "grows s s' =
     (settled_kept s s' \<and> set (jobs s) \<subseteq> set (jobs s') \<and>
      (\<forall>p h d. (h, d) \<in> set (reactions s p) \<longrightarrow>
         (h, d) \<in> set (reactions s' p) \<or> (\<exists>out. ReactionJob h d out \<in> set (jobs s'))))"



subsection \<open>What a call of clear leaves behind\<close>

text \<open>
  The cache is empty or holds a promise made after promise \<open>c\<close>.
\<close>

definition later_open :: "state \<Rightarrow> nat \<Rightarrow> bool" where
  "later_open s c = (case DatabasePromise s of None \<Rightarrow> True | Some q \<Rightarrow> c < q)"

text \<open>
  After a call of \<open>clear\<close> that returned \<open>c\<close>: the cache is empty or holds a later promise, or
  \<open>c\<close> is still pending and only the callback of that call can settle it.
\<close>

definition after_clear :: "state \<Rightarrow> nat \<Rightarrow> bool" where
  "after_clear s c =
     (c < next_promise s \<and>
      (later_open s c \<or> settles_only (\<lambda>l. False) (clear_job c) (clear_reaction c) s c))"

text \<open>
  The cached promise is one that was made.
\<close>

definition cache_allocated :: "state \<Rightarrow> bool" where
  "cache_allocated s = (case DatabasePromise s of None \<Rightarrow> True | Some p \<Rightarrow> p < next_promise s)"

text \<open>
  The callback of the \<open>clear\<close> that returned \<open>c\<close> is registered on no promise but \<open>p\<close>, and its
  job is queued only with the outcome \<open>p\<close> was settled with.
\<close>

definition callback_waits :: "state \<Rightarrow> nat \<Rightarrow> nat \<Rightarrow> bool" where
  "callback_waits s c p =
     (c < next_promise s \<and>
      (\<forall>q. q \<noteq> p \<longrightarrow> (ClearFinally, c) \<notin> set (reactions s q)) \<and>
      (\<forall>out. ReactionJob ClearFinally c out \<in> set (jobs s) \<longrightarrow> pstate s p = Settled out))"


subsection \<open>One settler for a derived promise\<close>

text \<open>
  A registered reaction can settle \<open>x\<close>: \<open>x\<close> is its derived promise, or its handler holds the
  resolving functions of \<open>x\<close>.
\<close>

definition reaction_settles :: "handler \<times> nat \<Rightarrow> nat \<Rightarrow> bool" where
  "reaction_settles r x = (snd r = x \<or> handler_settles (fst r) x)"

text \<open>
  The number of queued jobs that can settle \<open>d\<close>.
\<close>

definition jcount :: "state \<Rightarrow> nat \<Rightarrow> nat" where
  "jcount s d = length (filter (\<lambda>j. job_settles j d) (jobs s))"

text \<open>
  The number of reactions registered on \<open>p\<close> that can settle \<open>d\<close>.
\<close>

definition rcount :: "state \<Rightarrow> nat \<Rightarrow> nat \<Rightarrow> nat" where
  "rcount s d p = length (filter (\<lambda>r. reaction_settles r d) (reactions s p))"

text \<open>
  No job and no reaction can settle \<open>d\<close>.
\<close>

definition quiet :: "state \<Rightarrow> nat \<Rightarrow> bool" where
  "quiet s d = (jcount s d = 0 \<and> (\<forall>p. rcount s d p = 0))"

text \<open>
  Promise \<open>d\<close> is a derived promise with at most one job or reaction that can settle it, no
  listener settles it, and once it is settled nothing is left that would.
\<close>

definition single :: "state \<Rightarrow> nat \<Rightarrow> bool" where
  "single s d =
     (d < next_promise s \<and>
      (\<forall>tg ty cb. (tg, ty, cb) \<in> set (listeners s) \<longrightarrow> \<not> callback_settles cb d) \<and>
      (\<exists>p. (\<forall>p'. p' \<noteq> p \<longrightarrow> rcount s d p' = 0) \<and> rcount s d p + jcount s d \<le> 1) \<and>
      (pstate s d \<noteq> Pending \<longrightarrow> quiet s d))"

section \<open>What no step changes: the name, the descriptor slot, the assertion log\<close>

lemmas promise_defs = new_promise_def settle_def then_promise_def promise_reject_def
lemmas engine_defs = store_put_def store_delete_def store_get_def commit_def discard_def
  forget_request_def
lemmas closure_defs = set_steps_def get_steps_def delete_steps_def operation_def clear_callback_def

lemma slots_settle [simp]:
  "DatabaseName (settle p out s) = DatabaseName s"
  "private_DatabaseName (settle p out s) = private_DatabaseName s"
  "private_BackingStoreObject (settle p out s) = private_BackingStoreObject s"
  "assertion_failures (settle p out s) = assertion_failures s"
  by (simp_all add: settle_def split: promise_state.splits)

lemma slots_then_promise [simp]:
  "DatabaseName (snd (then_promise p h s)) = DatabaseName s"
  "private_DatabaseName (snd (then_promise p h s)) = private_DatabaseName s"
  "private_BackingStoreObject (snd (then_promise p h s)) = private_BackingStoreObject s"
  "assertion_failures (snd (then_promise p h s)) = assertion_failures s"
  by (simp_all add: then_promise_def new_promise_def split: promise_state.splits)

lemma slots_promise_reject [simp]:
  "DatabaseName (snd (promise_reject e s)) = DatabaseName s"
  "private_DatabaseName (snd (promise_reject e s)) = private_DatabaseName s"
  "private_BackingStoreObject (snd (promise_reject e s)) = private_BackingStoreObject s"
  "assertion_failures (snd (promise_reject e s)) = assertion_failures s"
  by (simp_all add: promise_reject_def new_promise_def case_prod_beta)

lemma slots_addASimpleEventListener [simp]:
  "DatabaseName (addASimpleEventListener tg ty cb s) = DatabaseName s"
  "private_DatabaseName (addASimpleEventListener tg ty cb s) = private_DatabaseName s"
  "private_BackingStoreObject (addASimpleEventListener tg ty cb s) = private_BackingStoreObject s"
  "assertion_failures (addASimpleEventListener tg ty cb s) = assertion_failures s"
  by (simp_all add: addASimpleEventListener_def)

lemma slots_run_callback [simp]:
  "DatabaseName (run_callback res err s cb) = DatabaseName s"
  "private_DatabaseName (run_callback res err s cb) = private_DatabaseName s"
  "private_BackingStoreObject (run_callback res err s cb) = private_BackingStoreObject s"
  "assertion_failures (run_callback res err s cb) = assertion_failures s"
  by (cases cb; simp)+

lemma slots_foldl_run_callback:
  "DatabaseName (foldl (run_callback res err) s cbs) = DatabaseName s \<and>
   private_DatabaseName (foldl (run_callback res err) s cbs) = private_DatabaseName s \<and>
   private_BackingStoreObject (foldl (run_callback res err) s cbs) = private_BackingStoreObject s \<and>
   assertion_failures (foldl (run_callback res err) s cbs) = assertion_failures s"
  by (induction cbs arbitrary: s) simp_all

lemma slots_dispatch [simp]:
  "DatabaseName (dispatch tg ty res err s) = DatabaseName s"
  "private_DatabaseName (dispatch tg ty res err s) = private_DatabaseName s"
  "private_BackingStoreObject (dispatch tg ty res err s) = private_BackingStoreObject s"
  "assertion_failures (dispatch tg ty res err s) = assertion_failures s"
  by (simp_all add: dispatch_def slots_foldl_run_callback)

lemma slots_initializeTheDatabasePromise [simp]:
  "DatabaseName (initializeTheDatabasePromise s) = DatabaseName s"
  "private_DatabaseName (initializeTheDatabasePromise s) = private_DatabaseName s"
  "private_BackingStoreObject (initializeTheDatabasePromise s) = private_BackingStoreObject s"
  "assertion_failures (initializeTheDatabasePromise s) = assertion_failures s"
  by (simp_all add: initializeTheDatabasePromise_def new_promise_def Let_def)

lemma slots_deletingTheDatabase [simp]:
  "DatabaseName (snd (deletingTheDatabase n s)) = DatabaseName s"
  "private_DatabaseName (snd (deletingTheDatabase n s)) = private_DatabaseName s"
  "private_BackingStoreObject (snd (deletingTheDatabase n s)) = private_BackingStoreObject s"
  "assertion_failures (snd (deletingTheDatabase n s)) = assertion_failures s"
  by (simp_all add: deletingTheDatabase_def new_promise_def Let_def)

lemma slots_performADatabaseOperation:
  "DatabaseName (snd (performADatabaseOperation m st s)) = DatabaseName s"
  "private_DatabaseName (snd (performADatabaseOperation m st s)) = private_DatabaseName s"
  "private_BackingStoreObject (snd (performADatabaseOperation m st s)) = private_BackingStoreObject s"
  "assertion_failures (snd (performADatabaseOperation m st s)) =
     (if DatabaseName s = None then Suc (assertion_failures s) else assertion_failures s)"
  by (simp_all add: performADatabaseOperation_def console_assert_def Let_def case_prod_beta
      split: option.splits)

lemma slots_request_events [simp]:
  "DatabaseName (request_succeeds r s) = DatabaseName s"
  "private_DatabaseName (request_succeeds r s) = private_DatabaseName s"
  "private_BackingStoreObject (request_succeeds r s) = private_BackingStoreObject s"
  "assertion_failures (request_succeeds r s) = assertion_failures s"
  "DatabaseName (request_fails r e s) = DatabaseName s"
  "private_DatabaseName (request_fails r e s) = private_DatabaseName s"
  "private_BackingStoreObject (request_fails r e s) = private_BackingStoreObject s"
  "assertion_failures (request_fails r e s) = assertion_failures s"
  by (simp_all add: request_succeeds_def request_fails_def forget_request_def
      split: option.splits request.splits)

lemma slots_transaction_events [simp]:
  "DatabaseName (transaction_completes t s) = DatabaseName s"
  "private_DatabaseName (transaction_completes t s) = private_DatabaseName s"
  "private_BackingStoreObject (transaction_completes t s) = private_BackingStoreObject s"
  "assertion_failures (transaction_completes t s) = assertion_failures s"
  "DatabaseName (transaction_errors t e s) = DatabaseName s"
  "private_DatabaseName (transaction_errors t e s) = private_DatabaseName s"
  "private_BackingStoreObject (transaction_errors t e s) = private_BackingStoreObject s"
  "assertion_failures (transaction_errors t e s) = assertion_failures s"
  "DatabaseName (transaction_aborts t e s) = DatabaseName s"
  "private_DatabaseName (transaction_aborts t e s) = private_DatabaseName s"
  "private_BackingStoreObject (transaction_aborts t e s) = private_BackingStoreObject s"
  "assertion_failures (transaction_aborts t e s) = assertion_failures s"
  by (simp_all add: transaction_completes_def transaction_errors_def transaction_aborts_def
      commit_def discard_def)

lemma slots_run_steps [simp]:
  "DatabaseName (snd (run_steps st t s)) = DatabaseName s"
  "private_DatabaseName (snd (run_steps st t s)) = private_DatabaseName s"
  "private_BackingStoreObject (snd (run_steps st t s)) = private_BackingStoreObject s"
  "assertion_failures (snd (run_steps st t s)) = assertion_failures s"
  by (cases st; simp add: closure_defs engine_defs new_promise_def Let_def case_prod_beta
      split: option.splits sum.splits)+

lemma slots_run_handler [simp]:
  "DatabaseName (snd (run_handler h out s)) = DatabaseName s"
  "private_DatabaseName (snd (run_handler h out s)) = private_DatabaseName s"
  "private_BackingStoreObject (snd (run_handler h out s)) = private_BackingStoreObject s"
  "assertion_failures (snd (run_handler h out s)) = assertion_failures s"
  by (induction h out s rule: run_handler.induct;
      simp add: operation_def clear_callback_def Let_def case_prod_beta)+

lemma slots_resolve_with [simp]:
  "DatabaseName (resolve_with d c s) = DatabaseName s"
  "private_DatabaseName (resolve_with d c s) = private_DatabaseName s"
  "private_BackingStoreObject (resolve_with d c s) = private_BackingStoreObject s"
  "assertion_failures (resolve_with d c s) = assertion_failures s"
  by (cases c; simp)+

lemma slots_run_job [simp]:
  "DatabaseName (run_job j s) = DatabaseName s"
  "private_DatabaseName (run_job j s) = private_DatabaseName s"
  "private_BackingStoreObject (run_job j s) = private_BackingStoreObject s"
  "assertion_failures (run_job j s) = assertion_failures s"
  by (cases j; simp add: Let_def case_prod_beta)+

lemma run_Nil [simp]: "run s [] = s"
  by (simp add: run_def)

lemma run_snoc [simp]: "run s (ins @ [i]) = step (run s ins) i"
  by (simp add: run_def)


lemma run_append: "run s (xs @ ys) = run (run s xs) ys"
  by (simp add: run_def)

lemma step_DatabaseName [simp]: "DatabaseName (step s i) = DatabaseName s"
  by (cases i)
     (simp_all add: set_op_def get_def delete_def clear_def backingStore_def
        slots_performADatabaseOperation case_prod_beta Let_def split: option.splits list.splits)

lemma run_DatabaseName [simp]: "DatabaseName (run s ins) = DatabaseName s"
  by (induction ins rule: rev_induct) simp_all

lemma step_assertion_failures:
  "DatabaseName s \<noteq> None \<Longrightarrow> assertion_failures (step s i) = assertion_failures s"
  by (cases i)
     (auto simp: set_op_def get_def delete_def clear_def backingStore_def
        slots_performADatabaseOperation case_prod_beta Let_def split: option.splits list.splits)

lemma run_assertion_failures:
  "DatabaseName s \<noteq> None \<Longrightarrow> assertion_failures (run s ins) = assertion_failures s"
  by (induction ins rule: rev_induct) (simp_all add: step_assertion_failures)

lemma step_private_DatabaseName [simp]: "private_DatabaseName (step s i) = private_DatabaseName s"
  by (cases i)
     (simp_all add: set_op_def get_def delete_def clear_def backingStore_def
        slots_performADatabaseOperation case_prod_beta Let_def split: option.splits list.splits)

lemma run_private_DatabaseName [simp]: "private_DatabaseName (run s ins) = private_DatabaseName s"
  by (induction ins rule: rev_induct) simp_all

lemma step_private_BackingStoreObject:
  "private_BackingStoreObject (step s i) = private_BackingStoreObject s \<or>
   (private_BackingStoreObject s = None \<and>
    private_BackingStoreObject (step s i) =
      Some \<lparr>database = private_DatabaseName s, store = ''store'', version = 1, frozen = True\<rparr>)"
  by (cases i)
     (simp_all add: set_op_def get_def delete_def clear_def backingStore_def Object_freeze_def
        slots_performADatabaseOperation case_prod_beta Let_def split: option.splits list.splits)

lemma database_name_run [simp]: "database_name (run s ins) = database_name s"
  by (simp add: database_name_def)

lemma run_private_BackingStoreObject:
  "private_BackingStoreObject s = None \<Longrightarrow>
   private_BackingStoreObject (run s ins) = None \<or>
   private_BackingStoreObject (run s ins) =
     Some \<lparr>database = private_DatabaseName s, store = ''store'', version = 1, frozen = True\<rparr>"
proof (induction ins rule: rev_induct)
  case Nil
  then show ?case by simp
next
  case (snoc i ins)
  show ?case
    using snoc.IH [OF snoc.prems] step_private_BackingStoreObject [of "run s ins" i]
    by auto
qed

section \<open>The effect of each function on the engine and on the promises\<close>

lemma engine_settle [simp]:
  "DatabasePromise (settle p out s) = DatabasePromise s"
  "requests (settle p out s) = requests s"
  "next_request (settle p out s) = next_request s"
  "listeners (settle p out s) = listeners s"
  "calls (settle p out s) = calls s"
  "next_promise (settle p out s) = next_promise s"
  "next_transaction (settle p out s) = next_transaction s"
  by (simp_all add: settle_def split: promise_state.splits)

lemma engine_then_promise [simp]:
  "DatabasePromise (snd (then_promise p h s)) = DatabasePromise s"
  "requests (snd (then_promise p h s)) = requests s"
  "next_request (snd (then_promise p h s)) = next_request s"
  "listeners (snd (then_promise p h s)) = listeners s"
  "calls (snd (then_promise p h s)) = calls s"
  "next_promise (snd (then_promise p h s)) = Suc (next_promise s)"
  "next_transaction (snd (then_promise p h s)) = next_transaction s"
  "fst (then_promise p h s) = next_promise s"
  by (simp_all add: then_promise_def new_promise_def split: promise_state.splits)

lemma engine_promise_reject [simp]:
  "DatabasePromise (snd (promise_reject e s)) = DatabasePromise s"
  "requests (snd (promise_reject e s)) = requests s"
  "next_request (snd (promise_reject e s)) = next_request s"
  "listeners (snd (promise_reject e s)) = listeners s"
  "calls (snd (promise_reject e s)) = calls s"
  "next_promise (snd (promise_reject e s)) = Suc (next_promise s)"
  "next_transaction (snd (promise_reject e s)) = next_transaction s"
  "fst (promise_reject e s) = next_promise s"
  by (simp_all add: promise_reject_def new_promise_def case_prod_beta)

lemma engine_run_callback [simp]:
  "requests (run_callback res err s cb) = requests s"
  "next_request (run_callback res err s cb) = next_request s"
  "listeners (run_callback res err s cb) = listeners s"
  "calls (run_callback res err s cb) = calls s"
  "next_promise (run_callback res err s cb) = next_promise s"
  "next_transaction (run_callback res err s cb) = next_transaction s"
  by (cases cb; simp)+

lemma engine_foldl_run_callback:
  "requests (foldl (run_callback res err) s cbs) = requests s \<and>
   next_request (foldl (run_callback res err) s cbs) = next_request s \<and>
   listeners (foldl (run_callback res err) s cbs) = listeners s \<and>
   calls (foldl (run_callback res err) s cbs) = calls s \<and>
   next_promise (foldl (run_callback res err) s cbs) = next_promise s \<and>
   next_transaction (foldl (run_callback res err) s cbs) = next_transaction s"
  by (induction cbs arbitrary: s) simp_all

lemma engine_dispatch [simp]:
  "requests (dispatch tg ty res err s) = requests s"
  "next_request (dispatch tg ty res err s) = next_request s"
  "listeners (dispatch tg ty res err s) = listeners s"
  "calls (dispatch tg ty res err s) = calls s"
  "next_promise (dispatch tg ty res err s) = next_promise s"
  "next_transaction (dispatch tg ty res err s) = next_transaction s"
  by (simp_all add: dispatch_def engine_foldl_run_callback)

lemma cache_foldl_run_callback:
  "ResetDatabasePromise \<notin> set cbs \<Longrightarrow>
   DatabasePromise (foldl (run_callback res err) s cbs) = DatabasePromise s"
proof (induction cbs arbitrary: s)
  case Nil
  then show ?case by simp
next
  case (Cons cb cbs)
  then show ?case by (cases cb) simp_all
qed

lemma cache_foldl_run_callback_cases:
  "DatabasePromise (foldl (run_callback res err) s cbs) = DatabasePromise s \<or>
   DatabasePromise (foldl (run_callback res err) s cbs) = None"
proof (induction cbs arbitrary: s)
  case Nil
  then show ?case by simp
next
  case (Cons cb cbs)
  show ?case
    using Cons.IH [of "run_callback res err s cb"] by (cases cb) auto
qed

lemma cache_dispatch:
  "(tg, ty, ResetDatabasePromise) \<notin> set (listeners s) \<Longrightarrow>
   DatabasePromise (dispatch tg ty res err s) = DatabasePromise s"
  unfolding dispatch_def
  by (rule cache_foldl_run_callback) (auto simp: image_iff)

lemma cache_dispatch_cases:
  "DatabasePromise (dispatch tg ty res err s) = DatabasePromise s \<or>
   DatabasePromise (dispatch tg ty res err s) = None"
  unfolding dispatch_def by (rule cache_foldl_run_callback_cases)

lemma engine_addASimpleEventListener [simp]:
  "DatabasePromise (addASimpleEventListener tg ty cb s) = DatabasePromise s"
  "requests (addASimpleEventListener tg ty cb s) = requests s"
  "next_request (addASimpleEventListener tg ty cb s) = next_request s"
  "listeners (addASimpleEventListener tg ty cb s) = listeners s @ [(tg, ty, cb)]"
  "calls (addASimpleEventListener tg ty cb s) = calls s"
  "next_promise (addASimpleEventListener tg ty cb s) = next_promise s"
  "next_transaction (addASimpleEventListener tg ty cb s) = next_transaction s"
  "pstate (addASimpleEventListener tg ty cb s) = pstate s"
  "reactions (addASimpleEventListener tg ty cb s) = reactions s"
  "jobs (addASimpleEventListener tg ty cb s) = jobs s"
  by (simp_all add: addASimpleEventListener_def)

lemma opens_in_flight_forget_request [simp]:
  "opens_in_flight (forget_request r s) = filter (\<lambda>x. x \<noteq> r) (opens_in_flight s)"
  by (simp add: opens_in_flight_def forget_request_def filter_map comp_def case_prod_beta
      conj_commute)

lemma map_of_filter_key:
  "map_of (filter (\<lambda>(r', rq). r' \<noteq> r) xs) x = (if x = r then None else map_of xs x)"
  by (induction xs) auto

lemma map_of_forget_request [simp]:
  "map_of (requests (forget_request r s)) x = (if x = r then None else map_of (requests s) x)"
  by (simp add: forget_request_def map_of_filter_key)

lemma forget_request_fields [simp]:
  "DatabasePromise (forget_request r s) = DatabasePromise s"
  "next_request (forget_request r s) = next_request s"
  "listeners (forget_request r s) = listeners s"
  "calls (forget_request r s) = calls s"
  "pstate (forget_request r s) = pstate s"
  "reactions (forget_request r s) = reactions s"
  "jobs (forget_request r s) = jobs s"
  "next_promise (forget_request r s) = next_promise s"
  "set (requests (forget_request r s)) \<subseteq> set (requests s)"
  by (auto simp: forget_request_def)

lemma open_request_in_flight:
  "map_of (requests s) r = Some OpenRequest \<Longrightarrow> r \<in> set (opens_in_flight s)"
  by (force simp: opens_in_flight_def dest: map_of_SomeD)

lemma at_most_one_removed:
  "length xs \<le> 1 \<Longrightarrow> r \<in> set xs \<Longrightarrow> filter (\<lambda>x. x \<noteq> r) xs = []"
  by (cases xs) auto

subsection \<open>No callback of clear is waiting\<close>

lemma clear_waiting_cong:
  "reactions s' = reactions s \<Longrightarrow> jobs s' = jobs s \<Longrightarrow> clear_waiting s' = clear_waiting s"
  by (simp add: clear_waiting_def)

lemma clear_waiting_settle: "\<not> clear_waiting s \<Longrightarrow> \<not> clear_waiting (settle p out s)"
  by (auto simp: clear_waiting_def settle_def split: promise_state.splits if_splits)

lemma clear_waiting_then_promise:
  "h \<noteq> ClearFinally \<Longrightarrow> \<not> clear_waiting s \<Longrightarrow> \<not> clear_waiting (snd (then_promise p h s))"
  by (auto simp: clear_waiting_def then_promise_def new_promise_def
      split: promise_state.splits if_splits)

lemma clear_waiting_promise_reject:
  "\<not> clear_waiting s \<Longrightarrow> \<not> clear_waiting (snd (promise_reject e s))"
proof -
  assume a: "\<not> clear_waiting s"
  have "\<not> clear_waiting (s\<lparr>next_promise := Suc (next_promise s)\<rparr>)"
    using a by (simp add: clear_waiting_def)
  then show ?thesis
    by (simp add: promise_reject_def new_promise_def clear_waiting_settle)
qed

lemma clear_waiting_run_callback:
  "\<not> clear_waiting s \<Longrightarrow> \<not> clear_waiting (run_callback res err s cb)"
  by (cases cb) (simp_all add: clear_waiting_settle, simp add: clear_waiting_def)

lemma clear_waiting_foldl:
  "\<not> clear_waiting s \<Longrightarrow> \<not> clear_waiting (foldl (run_callback res err) s cbs)"
  by (induction cbs arbitrary: s) (simp_all add: clear_waiting_run_callback)

lemma clear_waiting_dispatch:
  "\<not> clear_waiting s \<Longrightarrow> \<not> clear_waiting (dispatch tg ty res err s)"
  by (simp add: dispatch_def clear_waiting_foldl)

lemma promises_initializeTheDatabasePromise [simp]:
  "reactions (initializeTheDatabasePromise s) = reactions s"
  "jobs (initializeTheDatabasePromise s) = jobs s"
  "pstate (initializeTheDatabasePromise s) = pstate s"
  "next_promise (initializeTheDatabasePromise s) = Suc (next_promise s)"
  by (simp_all add: initializeTheDatabasePromise_def new_promise_def Let_def)

lemma promises_console_assert [simp]:
  "reactions (console_assert b s) = reactions s"
  "jobs (console_assert b s) = jobs s"
  "pstate (console_assert b s) = pstate s"
  "next_promise (console_assert b s) = next_promise s"
  "DatabasePromise (console_assert b s) = DatabasePromise s"
  "requests (console_assert b s) = requests s"
  "next_request (console_assert b s) = next_request s"
  "listeners (console_assert b s) = listeners s"
  "calls (console_assert b s) = calls s"
  "DatabaseName (console_assert b s) = DatabaseName s"
  by (simp_all add: console_assert_def)

lemma cache_initializeTheDatabasePromise [simp]:
  "DatabasePromise (initializeTheDatabasePromise s) = Some (next_promise s)"
  by (simp add: initializeTheDatabasePromise_def new_promise_def Let_def)

lemma clear_waiting_unaffected [simp]:
  "clear_waiting (console_assert b s) = clear_waiting s"
  "clear_waiting (initializeTheDatabasePromise s) = clear_waiting s"
  "clear_waiting (forget_request r s) = clear_waiting s"
  "clear_waiting (commit t s) = clear_waiting s"
  "clear_waiting (discard t s) = clear_waiting s"
  "clear_waiting (addASimpleEventListener tg ty cb s) = clear_waiting s"
  "clear_waiting (s\<lparr>private_BackingStoreObject := b'\<rparr>) = clear_waiting s"
  "clear_waiting (s\<lparr>DatabasePromise := c'\<rparr>) = clear_waiting s"
  "clear_waiting (s\<lparr>staged := st', entries := en'\<rparr>) = clear_waiting s"
  by (simp_all add: clear_waiting_def commit_def discard_def)

lemma clear_waiting_performADatabaseOperation:
  "\<not> clear_waiting s \<Longrightarrow> \<not> clear_waiting (snd (performADatabaseOperation m st s))"
  by (simp add: performADatabaseOperation_def Let_def case_prod_beta
      clear_waiting_then_promise split: option.splits)

lemma promises_run_steps [simp]:
  "reactions (snd (run_steps st t s)) = reactions s"
  "jobs (snd (run_steps st t s)) = jobs s"
  "pstate (snd (run_steps st t s)) = pstate s"
  "DatabasePromise (snd (run_steps st t s)) = DatabasePromise s"
  by (cases st; simp add: set_steps_def get_steps_def delete_steps_def store_put_def
      store_delete_def store_get_def new_promise_def Let_def case_prod_beta
      split: option.splits sum.splits)+

lemma promises_operation [simp]:
  "reactions (snd (operation m st db s)) = reactions s"
  "jobs (snd (operation m st db s)) = jobs s"
  "pstate (snd (operation m st db s)) = pstate s"
  "DatabasePromise (snd (operation m st db s)) = DatabasePromise s"
  by (simp_all add: operation_def Let_def)

lemma clear_waiting_resolve_with:
  "\<not> clear_waiting s \<Longrightarrow> \<not> clear_waiting (resolve_with d c s)"
  by (cases c) (auto simp: clear_waiting_settle, simp add: clear_waiting_def)

lemma clear_waiting_run_handler:
  "h \<noteq> ClearFinally \<Longrightarrow> \<not> clear_waiting s \<Longrightarrow> \<not> clear_waiting (snd (run_handler h out s))"
  by (induction h out s rule: run_handler.induct)
     (simp_all add: clear_waiting_settle clear_waiting_cong [of "snd (operation _ _ _ _)"])

lemma clear_waiting_run_job:
  assumes "\<not> clear_waiting s" and "j \<in> set (jobs s)" and "jobs s' = js" and "reactions s' = reactions s"
    and "set js \<subseteq> set (jobs s)"
  shows "\<not> clear_waiting (run_job j s')"
proof -
  have s': "\<not> clear_waiting s'"
    using assms by (auto simp: clear_waiting_def)
  show ?thesis
  proof (cases j)
    case (ReactionJob h d out)
    then have "h \<noteq> ClearFinally"
      using assms(1,2) by (auto simp: clear_waiting_def)
    then show ?thesis
      using s' ReactionJob
      by (simp add: case_prod_beta clear_waiting_resolve_with clear_waiting_run_handler)
  next
    case (ThenableJob d q)
    then show ?thesis
      using s' by (simp add: clear_waiting_then_promise)
  qed
qed

lemma clear_waiting_step:
  assumes "\<not> clear_waiting s" and "i \<noteq> CallClear"
  shows "\<not> clear_waiting (step s i)"
proof (cases i)
  case Tick
  show ?thesis
  proof (cases "jobs s")
    case Nil
    then show ?thesis using Tick assms by simp
  next
    case (Cons j js)
    then show ?thesis
      using Tick clear_waiting_run_job [OF assms(1), of j "s\<lparr>jobs := js\<rparr>" js] by auto
  qed
qed (use assms in \<open>simp_all add: set_op_def get_def delete_def backingStore_def Let_def
      case_prod_beta clear_waiting_performADatabaseOperation clear_waiting_promise_reject
      request_succeeds_def request_fails_def transaction_completes_def transaction_errors_def
      transaction_aborts_def clear_waiting_dispatch
      split: option.splits request.splits\<close>)

subsection \<open>At most one open in flight\<close>


lemma open_inv_cong:
  "DatabasePromise s' = DatabasePromise s \<Longrightarrow> requests s' = requests s \<Longrightarrow>
   next_request s' = next_request s \<Longrightarrow> listeners s' = listeners s \<Longrightarrow>
   open_inv s' = open_inv s"
  by (simp add: open_inv_def single_open_def reset_listeners_ok_def opens_in_flight_def)

lemma open_inv_unaffected [simp]:
  "open_inv (console_assert b s) = open_inv s"
  "open_inv (settle p out s) = open_inv s"
  "open_inv (snd (then_promise p h s)) = open_inv s"
  "open_inv (snd (promise_reject e s)) = open_inv s"
  "open_inv (s\<lparr>private_BackingStoreObject := b'\<rparr>) = open_inv s"
  "open_inv (s\<lparr>jobs := js\<rparr>) = open_inv s"
  "open_inv (s\<lparr>staged := st', entries := en'\<rparr>) = open_inv s"
  "open_inv (commit t s) = open_inv s"
  "open_inv (discard t s) = open_inv s"
  by (simp_all add: open_inv_def single_open_def reset_listeners_ok_def opens_in_flight_def
      commit_def discard_def)

lemma engine_initializeTheDatabasePromise [simp]:
  "requests (initializeTheDatabasePromise s) = requests s @ [(next_request s, OpenRequest)]"
  "next_request (initializeTheDatabasePromise s) = Suc (next_request s)"
  "listeners (initializeTheDatabasePromise s) =
     listeners s @ [(Request (next_request s), Success, ResolveWithResult (next_promise s)),
                    (Request (next_request s), Error, RejectWithError (next_promise s)),
                    (Request (next_request s), Error, ResetDatabasePromise)]"
  "calls (initializeTheDatabasePromise s) = calls s @ [OpenCall (database_name s)]"
  by (simp_all add: initializeTheDatabasePromise_def new_promise_def Let_def database_name_def)

lemma open_inv_initializeTheDatabasePromise:
  assumes "open_inv s" and "DatabasePromise s = None"
  shows "open_inv (initializeTheDatabasePromise s)"
proof -
  have "opens_in_flight s = []"
    using assms by (simp add: open_inv_def single_open_def)
  then have "single_open (initializeTheDatabasePromise s)"
    by (simp add: single_open_def opens_in_flight_def)
  moreover have "reset_listeners_ok (initializeTheDatabasePromise s)"
    using assms(1) unfolding open_inv_def reset_listeners_ok_def
    by (simp add: less_Suc_eq) blast
  ultimately show ?thesis by (simp add: open_inv_def)
qed

lemma performADatabaseOperation_cached:
  assumes "DatabasePromise s = Some p"
  shows "performADatabaseOperation m st s =
           (Inr (next_promise s),
            snd (then_promise p (Operation m st) (console_assert (DatabaseName s \<noteq> None) s)))"
proof -
  have "DatabasePromise (console_assert (DatabaseName s \<noteq> None) s) = Some p"
    using assms by (simp only: promises_console_assert)
  then show ?thesis
    unfolding performADatabaseOperation_def Let_def
    by (simp only: option.simps if_False option.case case_prod_beta engine_then_promise
        promises_console_assert)
qed

lemma performADatabaseOperation_absent:
  assumes "DatabasePromise s = None"
  shows "performADatabaseOperation m st s =
           (Inr (Suc (next_promise s)),
            snd (then_promise (next_promise s) (Operation m st)
                   (initializeTheDatabasePromise (console_assert (DatabaseName s \<noteq> None) s))))"
proof -
  have "DatabasePromise (console_assert (DatabaseName s \<noteq> None) s) = None"
    using assms by (simp only: promises_console_assert)
  then show ?thesis
    unfolding performADatabaseOperation_def Let_def
    by (simp only: if_True option.case case_prod_beta engine_then_promise
        promises_console_assert cache_initializeTheDatabasePromise
        promises_initializeTheDatabasePromise simp_thms)
qed

lemma open_inv_performADatabaseOperation:
  assumes "open_inv s"
  shows "open_inv (snd (performADatabaseOperation m st s))"
proof (cases "DatabasePromise s")
  case None
  have "open_inv (initializeTheDatabasePromise (console_assert (DatabaseName s \<noteq> None) s))"
    by (rule open_inv_initializeTheDatabasePromise)
       (simp_all only: open_inv_unaffected promises_console_assert assms None)
  then show ?thesis
    by (simp only: performADatabaseOperation_absent [OF None] snd_conv open_inv_unaffected)
next
  case (Some p)
  show ?thesis
    using assms by (simp only: performADatabaseOperation_cached [OF Some] snd_conv open_inv_unaffected)
qed

lemma open_inv_more_unaffected [simp]:
  "open_inv (s\<lparr>calls := c'\<rparr>) = open_inv s"
  "open_inv (s\<lparr>next_transaction := n'\<rparr>) = open_inv s"
  "open_inv (s\<lparr>staged := st'\<rparr>) = open_inv s"
  "open_inv (s\<lparr>entries := en'\<rparr>) = open_inv s"
  "c = DatabasePromise s \<Longrightarrow> open_inv (s\<lparr>DatabasePromise := c\<rparr>) = open_inv s"
  "open_inv (dispatch tg ty res err s) = open_inv (s\<lparr>DatabasePromise := DatabasePromise (dispatch tg ty res err s)\<rparr>)"
  by (simp_all add: open_inv_def single_open_def reset_listeners_ok_def opens_in_flight_def)

lemma open_inv_run_steps: "open_inv s \<Longrightarrow> open_inv (snd (run_steps st t s))"
  unfolding open_inv_def single_open_def reset_listeners_ok_def opens_in_flight_def
  by (cases st)
     (auto simp: set_steps_def get_steps_def delete_steps_def store_put_def
        store_delete_def store_get_def new_promise_def Let_def case_prod_beta less_Suc_eq)

lemma open_inv_operation: "open_inv s \<Longrightarrow> open_inv (snd (operation m st db s))"
  by (simp add: operation_def Let_def open_inv_run_steps)

lemma open_inv_resolve_with [simp]: "open_inv (resolve_with d c s) = open_inv s"
  by (cases c) (simp_all add: open_inv_def single_open_def reset_listeners_ok_def opens_in_flight_def)

lemma open_inv_run_handler:
  "h \<noteq> ClearFinally \<Longrightarrow> open_inv s \<Longrightarrow> open_inv (snd (run_handler h out s))"
  by (induction h out s rule: run_handler.induct) (simp_all add: open_inv_operation)

lemma open_inv_run_job:
  "(\<forall>d out. j \<noteq> ReactionJob ClearFinally d out) \<Longrightarrow> open_inv s \<Longrightarrow> open_inv (run_job j s)"
  by (cases j) (simp_all add: case_prod_beta open_inv_run_handler)

lemma open_inv_dispatch_no_reset:
  "open_inv s \<Longrightarrow> (tg, ty, ResetDatabasePromise) \<notin> set (listeners s) \<Longrightarrow>
   open_inv (dispatch tg ty res err s)"
  by (simp add: cache_dispatch)

lemma open_inv_dispatch_no_opens:
  assumes "open_inv s" and "opens_in_flight s = []"
  shows "open_inv (dispatch tg ty res err s)"
  using assms cache_dispatch_cases [of tg ty res err s]
  by (auto simp: open_inv_def single_open_def reset_listeners_ok_def opens_in_flight_def)

lemma open_inv_forget_request:
  assumes "open_inv s"
  shows "open_inv (forget_request r s)"
proof -
  have a: "length (opens_in_flight s) \<le> 1"
    using assms by (simp add: open_inv_def single_open_def)
  have "length (filter (\<lambda>x. x \<noteq> r) (opens_in_flight s)) \<le> 1"
    by (rule le_trans [OF length_filter_le a])
  then have "single_open (forget_request r s)"
    using assms by (auto simp: open_inv_def single_open_def)
  moreover have sub: "\<And>x. x \<in> set (requests (forget_request r s)) \<Longrightarrow> x \<in> set (requests s)"
    by (auto simp: forget_request_def)
  have "reset_listeners_ok (forget_request r s)"
    using assms unfolding open_inv_def reset_listeners_ok_def
    by (simp, blast dest: sub)
  ultimately show ?thesis by (simp add: open_inv_def)
qed

lemma open_inv_request_succeeds:
  assumes "open_inv s"
  shows "open_inv (request_succeeds r s)"
proof -
  have nr: "(Request r, Success, ResetDatabasePromise) \<notin> set (listeners s)"
    using assms by (auto simp: open_inv_def reset_listeners_ok_def)
  have f: "open_inv (forget_request r s)"
    using assms by (rule open_inv_forget_request)
  show ?thesis
    using f nr assms
    by (simp add: request_succeeds_def cache_dispatch split: option.splits request.splits)
qed

lemma open_inv_request_fails:
  assumes "open_inv s"
  shows "open_inv (request_fails r e s)"
proof (cases "map_of (requests s) r")
  case None
  then show ?thesis using assms by (simp add: request_fails_def)
next
  case (Some rq)
  have f: "open_inv (forget_request r s)"
    using assms by (rule open_inv_forget_request)
  show ?thesis
  proof (cases "rq = OpenRequest")
    case True
    then have "r \<in> set (opens_in_flight s)"
      using Some by (simp add: open_request_in_flight)
    moreover have "length (opens_in_flight s) \<le> 1"
      using assms by (simp add: open_inv_def single_open_def)
    ultimately have "opens_in_flight (forget_request r s) = []"
      by (simp add: at_most_one_removed)
    then have "open_inv (dispatch (Request r) Error Undefined e (forget_request r s))"
      using f by (rule open_inv_dispatch_no_opens [rotated])
    then show ?thesis using Some by (simp add: request_fails_def)
  next
    case False
    have "(r, rq) \<in> set (requests s)"
      using Some by (rule map_of_SomeD)
    then have "(Request r, Error, ResetDatabasePromise) \<notin> set (listeners s)"
      using assms False by (auto simp: open_inv_def reset_listeners_ok_def)
    then have "open_inv (dispatch (Request r) Error Undefined e (forget_request r s))"
      using f by (intro open_inv_dispatch_no_reset) simp_all
    then show ?thesis using Some by (simp add: request_fails_def)
  qed
qed

lemma open_inv_transaction_events:
  assumes "open_inv s"
  shows "open_inv (transaction_completes t s)"
    and "open_inv (transaction_errors t e s)"
    and "open_inv (transaction_aborts t e s)"
proof -
  have "\<And>ty. (Transaction t, ty, ResetDatabasePromise) \<notin> set (listeners s)"
    using assms by (simp add: open_inv_def reset_listeners_ok_def)
  then show "open_inv (transaction_completes t s)"
    and "open_inv (transaction_errors t e s)"
    and "open_inv (transaction_aborts t e s)"
    using assms
    by (simp_all add: transaction_completes_def transaction_errors_def transaction_aborts_def
        cache_dispatch commit_def discard_def)
qed

lemma open_inv_step:
  assumes "open_inv s" and "\<not> clear_waiting s" and "i \<noteq> CallClear"
  shows "open_inv (step s i)"
proof (cases i)
  case Tick
  show ?thesis
  proof (cases "jobs s")
    case Nil
    then show ?thesis using Tick assms by simp
  next
    case (Cons j js)
    then have "\<forall>d out. j \<noteq> ReactionJob ClearFinally d out"
      using assms(2) by (auto simp: clear_waiting_def)
    then show ?thesis
      using Tick Cons assms(1) by (simp add: open_inv_run_job)
  qed
qed (use assms in \<open>simp_all add: set_op_def get_def delete_def backingStore_def Let_def
      case_prod_beta open_inv_performADatabaseOperation open_inv_request_succeeds
      open_inv_request_fails open_inv_transaction_events split: option.splits\<close>)

lemma open_inv_KVStorageArea: "open_inv (KVStorageArea name stored) \<and> \<not> clear_waiting (KVStorageArea name stored)"
  by (simp add: open_inv_def single_open_def reset_listeners_ok_def opens_in_flight_def
      clear_waiting_def KVStorageArea_def)

lemma open_inv_run:
  "CallClear \<notin> set ins \<Longrightarrow>
   open_inv (run (KVStorageArea name stored) ins) \<and> \<not> clear_waiting (run (KVStorageArea name stored) ins)"
proof (induction ins rule: rev_induct)
  case Nil
  then show ?case by (simp add: open_inv_KVStorageArea)
next
  case (snoc i ins)
  then have "open_inv (run (KVStorageArea name stored) ins)"
    and "\<not> clear_waiting (run (KVStorageArea name stored) ins)" and "i \<noteq> CallClear"
    by auto
  then show ?case
    by (simp add: open_inv_step clear_waiting_step)
qed

section \<open>A settled promise stays as it is\<close>

lemma settled_kept_refl [simp]: "settled_kept s s"
  by (simp add: settled_kept_def)

lemma settled_kept_trans: "settled_kept s s' \<Longrightarrow> settled_kept s' s'' \<Longrightarrow> settled_kept s s''"
  by (simp add: settled_kept_def)

lemma settled_kept_same: "pstate s' = pstate s \<Longrightarrow> settled_kept s s'"
  by (simp add: settled_kept_def)

lemma settled_kept_settle [simp]: "settled_kept s (settle p out s)"
  by (simp add: settled_kept_def settle_def split: promise_state.splits)

lemma pstate_then_promise [simp]: "pstate (snd (then_promise p h s)) = pstate s"
  by (simp add: then_promise_def new_promise_def split: promise_state.splits)

lemma pstate_deletingTheDatabase [simp]:
  "pstate (snd (deletingTheDatabase n s)) = pstate s"
  "reactions (snd (deletingTheDatabase n s)) = reactions s"
  "jobs (snd (deletingTheDatabase n s)) = jobs s"
  "fst (deletingTheDatabase n s) = next_promise s"
  "next_promise (snd (deletingTheDatabase n s)) = Suc (next_promise s)"
  "calls (snd (deletingTheDatabase n s)) = calls s @ [DeleteDatabaseCall n]"
  "DatabasePromise (snd (deletingTheDatabase n s)) = DatabasePromise s"
  by (simp_all add: deletingTheDatabase_def new_promise_def Let_def)

lemma settled_kept_promise_reject [simp]: "settled_kept s (snd (promise_reject e s))"
proof -
  have "settled_kept s (s\<lparr>next_promise := Suc (next_promise s)\<rparr>)"
    by (simp add: settled_kept_def)
  then show ?thesis
    by (auto simp: promise_reject_def new_promise_def intro: settled_kept_trans)
qed




lemma settled_kept_performADatabaseOperation [simp]:
  "settled_kept s (snd (performADatabaseOperation m st s))"
  by (cases "DatabasePromise s")
     (simp_all add: performADatabaseOperation_absent performADatabaseOperation_cached
        settled_kept_same)

lemma settled_kept_resolve_with [simp]: "settled_kept s (resolve_with d c s)"
  by (cases c) (simp_all add: settled_kept_same)

lemma pstate_clear_callback [simp]: "pstate (snd (clear_callback s)) = pstate s"
  by (simp add: clear_callback_def Let_def)

lemma settled_kept_run_handler [simp]: "settled_kept s (snd (run_handler h out s))"
  by (induction h out s rule: run_handler.induct)
     (simp_all add: settled_kept_same case_prod_beta)




section \<open>Calls and engine events, one at a time\<close>

lemma step_CallGet:
  "step s (CallGet key) =
     (if allowedAsAKey key then snd (performADatabaseOperation Readonly (GetSteps key) s)
      else snd (promise_reject (DOMException ''DataError'') s))"
  by (simp add: get_def case_prod_beta)

lemma step_CallDelete:
  "step s (CallDelete key) =
     (if allowedAsAKey key then snd (performADatabaseOperation Readwrite (DeleteSteps key) s)
      else snd (promise_reject (DOMException ''DataError'') s))"
  by (simp add: delete_def case_prod_beta)

lemma step_CallSet:
  "step s (CallSet key val) = snd (performADatabaseOperation Readwrite (SetSteps key val) s)"
  by (simp add: set_op_def)

lemma step_ReadBackingStore:
  "step s ReadBackingStore = s \<or>
   (\<exists>d. step s ReadBackingStore = s\<lparr>private_BackingStoreObject := Some d\<rparr>)"
  by (cases "private_BackingStoreObject s") (auto simp: backingStore_def Let_def)

lemma engine_event_step:
  assumes ev: "engine_event i = Some (tg, ty, err)"
    and keep: "P s"
    and disp: "\<And>res s'. engine_only s s' \<Longrightarrow> P (dispatch tg ty res err s')"
  shows "P (step s i)"
proof (cases i)
  case (RequestSucceeds r)
  then show ?thesis
    using ev keep disp
    by (auto simp: request_succeeds_def engine_only_def forget_request_def
        split: option.splits request.splits)
next
  case (RequestFails r e)
  then show ?thesis
    using ev keep disp
    by (auto simp: request_fails_def engine_only_def forget_request_def split: option.splits
       )
next
  case (TransactionCompletes t)
  then show ?thesis
    using ev disp by (auto simp: transaction_completes_def engine_only_def commit_def)
next
  case (TransactionErrors t e)
  then show ?thesis
    using ev disp by (auto simp: transaction_errors_def engine_only_def discard_def)
next
  case (TransactionAborts t e)
  then show ?thesis
    using ev disp by (auto simp: transaction_aborts_def engine_only_def discard_def)
qed (use ev in simp_all)

section \<open>The callback of clear\<close>

lemma calls_resolve_with [simp]: "calls (resolve_with d c s) = calls s"
  by (cases c) simp_all

lemma clear_cached:
  assumes "DatabasePromise s = Some p"
  shows "clear s = then_promise p ClearFinally s"
  using assms by (simp add: clear_def)

lemma clear_callback_effect:
  "DatabasePromise (snd (clear_callback s)) = None"
  "calls (snd (clear_callback s)) = calls s @ [DeleteDatabaseCall (database_name s)]"
  by (simp_all add: clear_callback_def Let_def database_name_def)

lemma step_clear_job:
  assumes "jobs s = ReactionJob ClearFinally d out # js"
  shows "DatabasePromise (step s Tick) = None"
    and "calls (step s Tick) = calls s @ [DeleteDatabaseCall (database_name s)]"
proof -
  have n: "database_name (s\<lparr>jobs := js\<rparr>) = database_name s"
    by (simp add: database_name_def)
  show "DatabasePromise (step s Tick) = None"
    using assms by (simp add: case_prod_beta clear_callback_effect)
  show "calls (step s Tick) = calls s @ [DeleteDatabaseCall (database_name s)]"
    using assms n by (simp add: case_prod_beta clear_callback_effect)
qed

section \<open>What can settle a promise\<close>

lemma settles_only_cong:
  "pstate s' = pstate s \<Longrightarrow> listeners s' = listeners s \<Longrightarrow> jobs s' = jobs s \<Longrightarrow>
   reactions s' = reactions s \<Longrightarrow> settles_only L J R s' x = settles_only L J R s x"
  by (simp add: settles_only_def)

lemma settles_only_unaffected [simp]:
  "settles_only L J R (console_assert b s) x = settles_only L J R s x"
  "settles_only L J R (forget_request r s) x = settles_only L J R s x"
  "settles_only L J R (commit t s) x = settles_only L J R s x"
  "settles_only L J R (discard t s) x = settles_only L J R s x"
  "settles_only L J R (s\<lparr>private_BackingStoreObject := b'\<rparr>) x = settles_only L J R s x"
  "settles_only L J R (s\<lparr>DatabasePromise := c'\<rparr>) x = settles_only L J R s x"
  "settles_only L J R (s\<lparr>staged := st'\<rparr>) x = settles_only L J R s x"
  "settles_only L J R (s\<lparr>entries := en'\<rparr>) x = settles_only L J R s x"
  "settles_only L J R (s\<lparr>next_promise := n'\<rparr>) x = settles_only L J R s x"
  "settles_only L J R (s\<lparr>calls := ca'\<rparr>) x = settles_only L J R s x"
  "settles_only L J R (s\<lparr>requests := rq'\<rparr>) x = settles_only L J R s x"
  "settles_only L J R (s\<lparr>next_request := nr'\<rparr>) x = settles_only L J R s x"
  "settles_only L J R (s\<lparr>next_transaction := nt'\<rparr>) x = settles_only L J R s x"
  by (simp_all add: settles_only_def commit_def discard_def)

lemma settles_only_settle:
  assumes "moves J R" and "settles_only L J R s x" and "y \<noteq> x"
  shows "settles_only L J R (settle y out s) x"
  using assms unfolding settles_only_def moves_def settle_def
  by (auto split: promise_state.splits)

lemma settles_only_then_promise:
  assumes "settles_only L J R s x" and "next_promise s \<noteq> x" and "\<not> handler_settles h x"
  shows "settles_only L J R (snd (then_promise q h s)) x"
  using assms unfolding settles_only_def then_promise_def new_promise_def
  by (auto split: promise_state.splits)

lemma settles_only_addASimpleEventListener:
  assumes "settles_only L J R s x" and "\<not> callback_settles cb x"
  shows "settles_only L J R (addASimpleEventListener tg ty cb s) x"
  using assms unfolding settles_only_def by auto

lemma settles_only_run_callback:
  assumes "moves J R" and "settles_only L J R s x" and "\<not> callback_settles cb x"
  shows "settles_only L J R (run_callback res err s cb) x"
  using assms by (cases cb) (simp_all add: settles_only_settle)

lemma settles_only_foldl:
  assumes "moves J R" and "settles_only L J R s x" and "\<forall>cb \<in> set cbs. \<not> callback_settles cb x"
  shows "settles_only L J R (foldl (run_callback res err) s cbs) x"
  using assms(2,3)
proof (induction cbs arbitrary: s)
  case Nil
  then show ?case by simp
next
  case (Cons cb cbs)
  then show ?case using assms(1) by (simp add: settles_only_run_callback)
qed

lemma settles_only_dispatch:
  assumes "moves J R" and "settles_only L J R s x"
    and "\<And>cb. (tg, ty, cb) \<in> set (listeners s) \<Longrightarrow> \<not> callback_settles cb x"
  shows "settles_only L J R (dispatch tg ty res err s) x"
proof -
  have "\<forall>cb \<in> set (map (\<lambda>(tg', ty', cb). cb)
          (filter (\<lambda>(tg', ty', cb). tg' = tg \<and> ty' = ty) (listeners s))). \<not> callback_settles cb x"
    using assms(3) by auto
  then show ?thesis
    unfolding dispatch_def by (rule settles_only_foldl [OF assms(1,2)])
qed

lemma settles_only_initializeTheDatabasePromise:
  assumes "settles_only L J R s x" and "next_promise s \<noteq> x"
  shows "settles_only L J R (initializeTheDatabasePromise s) x"
  using assms unfolding settles_only_def initializeTheDatabasePromise_def new_promise_def Let_def
  by (auto simp: addASimpleEventListener_def)

lemma settles_only_deletingTheDatabase:
  assumes "settles_only L J R s x" and "next_promise s \<noteq> x"
  shows "settles_only L J R (snd (deletingTheDatabase n s)) x"
  using assms unfolding settles_only_def deletingTheDatabase_def new_promise_def Let_def
  by (auto simp: addASimpleEventListener_def)

lemma next_promise_performADatabaseOperation:
  "next_promise (snd (performADatabaseOperation m st s)) =
     (if DatabasePromise s = None then Suc (Suc (next_promise s)) else Suc (next_promise s))"
  by (cases "DatabasePromise s")
     (simp_all add: performADatabaseOperation_absent performADatabaseOperation_cached)

lemma settles_only_performADatabaseOperation:
  assumes "settles_only L J R s x"
    and "x < next_promise s \<or> next_promise (snd (performADatabaseOperation m st s)) \<le> x"
  shows "settles_only L J R (snd (performADatabaseOperation m st s)) x"
proof (cases "DatabasePromise s")
  case None
  have a: "next_promise s \<noteq> x" and b: "Suc (next_promise s) \<noteq> x"
    using assms(2) None by (auto simp: next_promise_performADatabaseOperation)
  have "settles_only L J R (initializeTheDatabasePromise (console_assert (DatabaseName s \<noteq> None) s)) x"
    using assms(1) a by (intro settles_only_initializeTheDatabasePromise) simp_all
  then show ?thesis
    using b unfolding performADatabaseOperation_absent [OF None]
    by (simp add: settles_only_then_promise)
next
  case (Some p)
  have a: "next_promise s \<noteq> x"
    using assms(2) Some by (auto simp: next_promise_performADatabaseOperation)
  show ?thesis
    using assms(1) a unfolding performADatabaseOperation_cached [OF Some]
    by (simp add: settles_only_then_promise)
qed

lemma settles_only_promise_reject:
  assumes "moves J R" and "settles_only L J R s x" and "next_promise s \<noteq> x"
  shows "settles_only L J R (snd (promise_reject e s)) x"
  using assms by (simp add: promise_reject_def new_promise_def settles_only_settle)

lemma next_promise_run_steps:
  "next_promise (snd (run_steps st t s)) = next_promise s \<or>
   next_promise (snd (run_steps st t s)) = Suc (next_promise s)"
  by (cases st)
     (auto simp: set_steps_def get_steps_def delete_steps_def store_put_def
        store_delete_def store_get_def new_promise_def Let_def case_prod_beta)

lemma settles_only_run_steps:
  assumes "settles_only L J R s x"
    and "x < next_promise s \<or> next_promise (snd (run_steps st t s)) \<le> x"
  shows "settles_only L J R (snd (run_steps st t s)) x"
  using assms unfolding settles_only_def
  by (cases st)
     (auto simp: set_steps_def get_steps_def delete_steps_def store_put_def
        store_delete_def store_get_def new_promise_def Let_def case_prod_beta
        addASimpleEventListener_def split: if_splits)

lemma settles_only_operation:
  assumes "settles_only L J R s x"
    and "x < next_promise s \<or> next_promise (snd (operation m st db s)) \<le> x"
  shows "settles_only L J R (snd (operation m st db s)) x"
  using assms by (simp add: operation_def Let_def settles_only_run_steps)

lemma next_promise_operation:
  "next_promise (snd (operation m st db s)) = next_promise s \<or>
   next_promise (snd (operation m st db s)) = Suc (next_promise s)"
  using next_promise_run_steps [of st "next_transaction s"
      "s\<lparr>calls := calls s @ [TransactionCall db m], next_transaction := Suc (next_transaction s)\<rparr>"]
  by (simp add: operation_def Let_def)

text \<open>What a handler returns never makes its own promise follow an old promise.\<close>

lemma settles_only_clear_callback:
  assumes "settles_only L J R s x" and "next_promise s \<noteq> x"
  shows "settles_only L J R (snd (clear_callback s)) x"
  using assms by (simp add: clear_callback_def Let_def settles_only_deletingTheDatabase)

lemma next_promise_clear_callback [simp]:
  "next_promise (snd (clear_callback s)) = Suc (next_promise s)"
  by (simp add: clear_callback_def Let_def)

lemma settles_only_run_handler:
  assumes "moves J R" and "settles_only L J R s x" and "\<not> handler_settles h x"
    and "x < next_promise s \<or> next_promise (snd (run_handler h out s)) \<le> x"
  shows "settles_only L J R (snd (run_handler h out s)) x"
proof (cases h)
  case (Operation m st)
  show ?thesis
  proof (cases out)
    case (Fulfilled db)
    show ?thesis
      using assms(2,4) Operation Fulfilled by (simp add: settles_only_operation)
  next
    case (Rejected e)
    then show ?thesis using assms(2) Operation by simp
  qed
next
  case ClearFinally
  have a: "next_promise s \<noteq> x" and b: "Suc (next_promise s) \<noteq> x"
    using assms(4) ClearFinally by (auto simp: case_prod_beta)
  have "settles_only L J R (snd (clear_callback s)) x"
    using assms(2) a by (rule settles_only_clear_callback)
  then show ?thesis
    using b ClearFinally by (simp add: case_prod_beta settles_only_then_promise)
next
  case (ValueThunk orig)
  then show ?thesis
    using assms(2) by (cases orig; cases out) simp_all
next
  case (ResolveFunctions p)
  then show ?thesis
    using assms(1,2,3) by (simp add: settles_only_settle)
qed

lemma settles_only_resolve_with:
  assumes "moves J R" and "settles_only L J R s x" and "d \<noteq> x"
  shows "settles_only L J R (resolve_with d c s) x"
proof (cases c)
  case (ReturnPromise q)
  then show ?thesis using assms(2,3) by (simp add: settles_only_def)
qed (use assms in \<open>simp_all add: settles_only_settle\<close>)

lemma next_promise_resolve_with [simp]: "next_promise (resolve_with d c s) = next_promise s"
  by (cases c) simp_all

lemma settles_only_run_job:
  assumes "moves J R" and "settles_only L J R s x" and "\<not> job_settles j x"
    and "x < next_promise s \<or> next_promise (run_job j s) \<le> x"
  shows "settles_only L J R (run_job j s) x"
proof (cases j)
  case (ReactionJob h d out)
  have "settles_only L J R (snd (run_handler h out s)) x"
    using assms ReactionJob by (intro settles_only_run_handler) (simp_all add: case_prod_beta)
  then show ?thesis
    using assms(1,3) ReactionJob by (simp add: case_prod_beta settles_only_resolve_with)
next
  case (ThenableJob d q)
  then show ?thesis
    using assms by (auto intro!: settles_only_then_promise)
qed

lemma snd_operations:
  "snd (set_op key val s) = snd (performADatabaseOperation Readwrite (SetSteps key val) s)"
  "snd (get key s) =
     (if allowedAsAKey key then snd (performADatabaseOperation Readonly (GetSteps key) s)
      else snd (promise_reject (DOMException ''DataError'') s))"
  "snd (delete key s) =
     (if allowedAsAKey key then snd (performADatabaseOperation Readwrite (DeleteSteps key) s)
      else snd (promise_reject (DOMException ''DataError'') s))"
  by (simp_all add: set_op_def get_def delete_def case_prod_beta)

lemma settles_only_step:
  assumes m: "moves J R" and s: "settles_only L J R s x"
    and alloc: "x < next_promise s \<or> next_promise (step s i) \<le> x"
    and head: "\<And>j js. i = Tick \<Longrightarrow> jobs s = j # js \<Longrightarrow> \<not> job_settles j x"
    and event: "\<And>tg ty err cb. engine_event i = Some (tg, ty, err) \<Longrightarrow>
                  (tg, ty, cb) \<in> set (listeners s) \<Longrightarrow> \<not> callback_settles cb x"
  shows "settles_only L J R (step s i) x"
proof (cases "engine_event i")
  case (Some ev)
  obtain tg ty err where ev: "engine_event i = Some (tg, ty, err)"
    using Some by (cases ev) auto
  show ?thesis
  proof (rule engine_event_step [OF ev])
    show "settles_only L J R s x" by (rule s)
  next
    fix res s'
    assume e: "engine_only s s'"
    then have "settles_only L J R s' x"
      using s by (simp add: engine_only_def settles_only_def)
    moreover have "\<And>cb. (tg, ty, cb) \<in> set (listeners s') \<Longrightarrow> \<not> callback_settles cb x"
      using event [OF ev] e by (simp add: engine_only_def)
    ultimately show "settles_only L J R (dispatch tg ty res err s') x"
      by (rule settles_only_dispatch [OF m])
  qed
next
  case None
  show ?thesis
  proof (cases i)
    case (CallSet key val)
    then show ?thesis
      using s alloc by (simp only: step_CallSet settles_only_performADatabaseOperation)
  next
    case (CallGet key)
    show ?thesis
    proof (cases "allowedAsAKey key")
      case True
      then show ?thesis
        using s alloc CallGet
        by (simp only: step_CallGet if_True settles_only_performADatabaseOperation)
    next
      case False
      then have "next_promise s \<noteq> x"
        using alloc CallGet by (auto simp: snd_operations)
      then show ?thesis
        using False CallGet m s by (simp add: snd_operations settles_only_promise_reject)
    qed
  next
    case (CallDelete key)
    show ?thesis
    proof (cases "allowedAsAKey key")
      case True
      then show ?thesis
        using s alloc CallDelete
        by (simp only: step_CallDelete if_True settles_only_performADatabaseOperation)
    next
      case False
      then have "next_promise s \<noteq> x"
        using alloc CallDelete by (auto simp: snd_operations)
      then show ?thesis
        using False CallDelete m s by (simp add: snd_operations settles_only_promise_reject)
    qed
  next
    case CallClear
    have "next_promise s \<noteq> x"
      using alloc CallClear by (auto simp: clear_def split: option.splits)
    then show ?thesis
      using s CallClear
      by (auto simp: clear_def settles_only_then_promise settles_only_deletingTheDatabase
          split: option.splits)
  next
    case ReadBackingStore
    then show ?thesis
      using s step_ReadBackingStore [of s] by auto
  next
    case Tick
    show ?thesis
    proof (cases "jobs s")
      case Nil
      then show ?thesis using Tick s by simp
    next
      case (Cons j js)
      have "settles_only L J R (s\<lparr>jobs := js\<rparr>) x"
        using s Cons by (auto simp: settles_only_def)
      moreover have "\<not> job_settles j x"
        using head Tick Cons by simp
      moreover have "x < next_promise (s\<lparr>jobs := js\<rparr>) \<or> next_promise (run_job j (s\<lparr>jobs := js\<rparr>)) \<le> x"
        using alloc Tick Cons by simp
      ultimately show ?thesis
        using Tick Cons m by (simp add: settles_only_run_job)
    qed
  qed (use None in simp_all)
qed

section \<open>Promise identifiers only grow\<close>

lemma next_promise_run_handler: "next_promise s \<le> next_promise (snd (run_handler h out s))"
proof (cases h)
  case (Operation m st)
  then show ?thesis
  proof (cases out)
    case (Fulfilled db)
    then show ?thesis
      using Operation next_promise_operation [of m st db s] by auto
  next
    case (Rejected e)
    then show ?thesis using Operation by simp
  qed
next
  case ClearFinally
  then show ?thesis by (simp add: case_prod_beta)
next
  case (ValueThunk orig)
  then show ?thesis by (cases orig; cases out) simp_all
next
  case (ResolveFunctions p)
  then show ?thesis by simp
qed

lemma next_promise_run_job: "next_promise s \<le> next_promise (run_job j s)"
  using next_promise_run_handler by (cases j) (simp_all add: case_prod_beta)

lemma next_promise_step: "next_promise s \<le> next_promise (step s i)"
proof (cases "engine_event i")
  case (Some ev)
  obtain tg ty err where ev: "engine_event i = Some (tg, ty, err)"
    using Some by (cases ev) auto
  show ?thesis
    by (rule engine_event_step [OF ev]) (simp_all add: engine_only_def)
next
  case None
  show ?thesis
  proof (cases i)
    case Tick
    show ?thesis
    proof (cases "jobs s")
      case Nil
      then show ?thesis using Tick by simp
    next
      case (Cons j js)
      then show ?thesis
        using Tick next_promise_run_job [of "s\<lparr>jobs := js\<rparr>" j] by simp
    qed
  next
    case ReadBackingStore
    then show ?thesis using step_ReadBackingStore [of s] by auto
  qed (use None in \<open>simp_all add: snd_operations clear_def
        next_promise_performADatabaseOperation split: option.splits\<close>)
qed

section \<open>Unused promise identifiers are not mentioned\<close>

lemma moves_False [simp]: "moves (\<lambda>j. False) (\<lambda>r. False)"
  by (simp add: moves_def)

lemma moves_clear [simp]: "moves (clear_job c) (clear_reaction c)"
  by (simp add: moves_def clear_job_def clear_reaction_def)

lemma fresh_above_step:
  assumes "fresh_above s"
  shows "fresh_above (step s i)"
  unfolding fresh_above_def
proof (intro allI impI)
  fix x
  assume x: "next_promise (step s i) \<le> x"
  then have "next_promise s \<le> x"
    using next_promise_step [of s i] by simp
  then have s: "settles_only (\<lambda>l. False) (\<lambda>j. False) (\<lambda>r. False) s x"
    using assms by (simp add: fresh_above_def)
  show "settles_only (\<lambda>l. False) (\<lambda>j. False) (\<lambda>r. False) (step s i) x"
  proof (rule settles_only_step [OF moves_False s])
    show "x < next_promise s \<or> next_promise (step s i) \<le> x"
      using x by simp
  next
    fix j js
    assume "jobs s = j # js"
    then show "\<not> job_settles j x"
      using s by (auto simp: settles_only_def)
  next
    fix tg ty cb
    assume "(tg, ty, cb) \<in> set (listeners s)"
    then show "\<not> callback_settles cb x"
      using s by (auto simp: settles_only_def)
  qed
qed

lemma fresh_above_KVStorageArea: "fresh_above (KVStorageArea name stored)"
  by (simp add: fresh_above_def settles_only_def KVStorageArea_def)

lemma fresh_above_run: "fresh_above s \<Longrightarrow> fresh_above (run s ins)"
  by (induction ins rule: rev_induct) (simp_all add: fresh_above_step)

section \<open>The cache after clear\<close>

lemma cache_resolve_with [simp]: "DatabasePromise (resolve_with d c s) = DatabasePromise s"
  by (cases c) simp_all

lemma cache_run_handler:
  "DatabasePromise (snd (run_handler h out s)) = DatabasePromise s \<or>
   DatabasePromise (snd (run_handler h out s)) = None"
  by (induction h out s rule: run_handler.induct)
     (simp_all add: case_prod_beta clear_callback_effect)

lemma cache_run_job:
  "DatabasePromise (run_job j s) = DatabasePromise s \<or> DatabasePromise (run_job j s) = None"
  using cache_run_handler by (cases j) (simp_all add: case_prod_beta)

lemma cache_clear [simp]: "DatabasePromise (snd (clear s)) = DatabasePromise s"
  by (simp add: clear_def split: option.splits)

lemma cache_stays_null:
  assumes "DatabasePromise s = None" and "\<not> is_operation i"
  shows "DatabasePromise (step s i) = None"
proof (cases "engine_event i")
  case (Some ev)
  obtain tg ty err where ev: "engine_event i = Some (tg, ty, err)"
    using Some by (cases ev) auto
  show ?thesis
  proof (rule engine_event_step [OF ev])
    show "DatabasePromise s = None" by (rule assms(1))
  next
    fix res s'
    assume "engine_only s s'"
    then have "DatabasePromise s' = None"
      using assms(1) by (simp add: engine_only_def)
    then show "DatabasePromise (dispatch tg ty res err s') = None"
      using cache_dispatch_cases [of tg ty res err s'] by auto
  qed
next
  case None
  show ?thesis
  proof (cases i)
    case Tick
    show ?thesis
    proof (cases "jobs s")
      case Nil
      then show ?thesis using Tick assms(1) by simp
    next
      case (Cons j js)
      then show ?thesis
        using Tick assms(1) cache_run_job [of j "s\<lparr>jobs := js\<rparr>"] by auto
    qed
  next
    case ReadBackingStore
    then show ?thesis using assms(1) step_ReadBackingStore [of s] by auto
  qed (use None assms in simp_all)
qed

lemma clear_pending_clear:
  assumes "fresh_above s"
  shows "clear_pending (snd (clear s)) (fst (clear s))"
proof (cases "DatabasePromise s")
  case None
  then show ?thesis by (simp add: clear_pending_def)
next
  case (Some p)
  have u: "settles_only (\<lambda>l. False) (\<lambda>j. False) (\<lambda>r. False) s (next_promise s)"
    using assms by (simp add: fresh_above_def)
  have c: "clear s = then_promise p ClearFinally s"
    using Some by (rule clear_cached)
  have "settles_only (\<lambda>l. False) (clear_job (next_promise s)) (clear_reaction (next_promise s))
          (snd (then_promise p ClearFinally s)) (next_promise s)"
    using u unfolding settles_only_def then_promise_def new_promise_def
    by (auto simp: clear_job_def clear_reaction_def split: promise_state.splits)
  then show ?thesis
    by (simp add: c clear_pending_def)
qed

section \<open>The cache holds a new promise or none\<close>

lemma cache_step:
  "DatabasePromise (step s i) = DatabasePromise s \<or> DatabasePromise (step s i) = None \<or>
   (DatabasePromise (step s i) = Some (next_promise s) \<and> next_promise s < next_promise (step s i))"
proof (cases "engine_event i")
  case (Some ev)
  obtain tg ty err where ev: "engine_event i = Some (tg, ty, err)"
    using Some by (cases ev) auto
  have "DatabasePromise (step s i) = DatabasePromise s \<or> DatabasePromise (step s i) = None"
  proof (rule engine_event_step [OF ev])
    show "DatabasePromise s = DatabasePromise s \<or> DatabasePromise s = None" by simp
  next
    fix res s'
    assume "engine_only s s'"
    then have "DatabasePromise s' = DatabasePromise s"
      by (simp add: engine_only_def)
    then show "DatabasePromise (dispatch tg ty res err s') = DatabasePromise s \<or>
        DatabasePromise (dispatch tg ty res err s') = None"
      using cache_dispatch_cases [of tg ty res err s'] by auto
  qed
  then show ?thesis by blast
next
  case None
  have op: "DatabasePromise (snd (performADatabaseOperation m st s)) = DatabasePromise s \<or>
      (DatabasePromise (snd (performADatabaseOperation m st s)) = Some (next_promise s) \<and>
       next_promise s < next_promise (snd (performADatabaseOperation m st s)))" for m st
    by (cases "DatabasePromise s")
       (simp_all add: performADatabaseOperation_absent performADatabaseOperation_cached)
  show ?thesis
  proof (cases i)
    case Tick
    show ?thesis
    proof (cases "jobs s")
      case Nil
      then show ?thesis using Tick by simp
    next
      case (Cons j js)
      then show ?thesis
        using Tick cache_run_job [of j "s\<lparr>jobs := js\<rparr>"] by auto
    qed
  next
    case ReadBackingStore
    then show ?thesis using step_ReadBackingStore [of s] by auto
  next
    case (CallSet key val)
    then show ?thesis
      using op [of Readwrite "SetSteps key val"] by (auto simp: snd_operations)
  next
    case (CallGet key)
    then show ?thesis
      using op [of Readonly "GetSteps key"] by (auto simp: snd_operations)
  next
    case (CallDelete key)
    then show ?thesis
      using op [of Readwrite "DeleteSteps key"] by (auto simp: snd_operations)
  next
    case CallClear
    then show ?thesis by simp
  qed (use None in simp_all)
qed

lemma cache_allocated_step: "cache_allocated s \<Longrightarrow> cache_allocated (step s i)"
  using cache_step [of s i] next_promise_step [of s i]
  by (auto simp: cache_allocated_def split: option.splits)

lemma cache_allocated_run: "cache_allocated s \<Longrightarrow> cache_allocated (run s ins)"
  by (induction ins rule: rev_induct) (simp_all add: cache_allocated_step)

lemma cache_allocated_KVStorageArea: "cache_allocated (KVStorageArea name stored)"
  by (simp add: cache_allocated_def KVStorageArea_def)

lemma later_open_step:
  assumes "later_open s c" and "c < next_promise s"
  shows "later_open (step s i) c"
  using assms cache_step [of s i]
  by (auto simp: later_open_def split: option.splits)

lemma after_clear_step:
  assumes "after_clear s c"
  shows "after_clear (step s i) c"
proof -
  have c: "c < next_promise s"
    using assms by (simp add: after_clear_def)
  then have c': "c < next_promise (step s i)"
    using next_promise_step [of s i] by simp
  show ?thesis
  proof (cases "later_open s c")
    case True
    then show ?thesis
      using c c' by (simp add: after_clear_def later_open_step)
  next
    case False
    then have s: "settles_only (\<lambda>l. False) (clear_job c) (clear_reaction c) s c"
      using assms by (simp add: after_clear_def)
    show ?thesis
    proof (cases "\<exists>j js. i = Tick \<and> jobs s = j # js \<and> job_settles j c")
      case True
      then obtain j js where i: "i = Tick" and j: "jobs s = j # js" and js: "job_settles j c"
        by blast
      have "clear_job c j"
        using s j js by (auto simp: settles_only_def)
      then obtain out where "jobs s = ReactionJob ClearFinally c out # js"
        using j by (auto simp: clear_job_def)
      then have "DatabasePromise (step s Tick) = None"
        by (rule step_clear_job)
      then show ?thesis using i c' by (simp add: after_clear_def later_open_def)
    next
      case False
      have "settles_only (\<lambda>l. False) (clear_job c) (clear_reaction c) (step s i) c"
      proof (rule settles_only_step [OF moves_clear s])
        show "c < next_promise s \<or> next_promise (step s i) \<le> c"
          using c by simp
      next
        fix j js
        assume "i = Tick" and "jobs s = j # js"
        then show "\<not> job_settles j c" using False by blast
      next
        fix tg ty cb
        assume "(tg, ty, cb) \<in> set (listeners s)"
        then show "\<not> callback_settles cb c"
          using s by (auto simp: settles_only_def)
      qed
      then show ?thesis using c' by (simp add: after_clear_def)
    qed
  qed
qed

lemma after_clear_run: "after_clear s c \<Longrightarrow> after_clear (run s ins) c"
  by (induction ins rule: rev_induct) (simp_all add: after_clear_step)

lemma clear_registers:
  assumes "fresh_above s" and "DatabasePromise s = Some p"
  shows "fst (clear s) < next_promise (snd (clear s))"
    and "settles_only (\<lambda>l. False) (clear_job (fst (clear s))) (clear_reaction (fst (clear s)))
      (snd (clear s)) (fst (clear s))"
proof -
  have "clear_pending (snd (clear s)) (fst (clear s))"
    using assms(1) by (rule clear_pending_clear)
  moreover have "DatabasePromise (snd (clear s)) \<noteq> None"
    using assms(2) by simp
  ultimately show "fst (clear s) < next_promise (snd (clear s))"
    and "settles_only (\<lambda>l. False) (clear_job (fst (clear s))) (clear_reaction (fst (clear s)))
      (snd (clear s)) (fst (clear s))"
    unfolding clear_pending_def by blast+
qed

lemma after_clear_clear:
  assumes "fresh_above s"
  shows "after_clear (snd (clear s)) (fst (clear s))"
proof (cases "DatabasePromise s")
  case None
  then show ?thesis
    by (simp add: after_clear_def later_open_def clear_def)
next
  case (Some p)
  then show ?thesis
    using clear_registers [OF assms Some] by (simp add: after_clear_def)
qed

lemma later_open_when_clear_completes:
  assumes "fresh_above s"
    and "pstate (run (snd (clear s)) ins) (fst (clear s)) = Settled out"
  shows "later_open (run (snd (clear s)) ins) (fst (clear s))"
proof -
  have "after_clear (run (snd (clear s)) ins) (fst (clear s))"
    using after_clear_clear [OF assms(1)] by (rule after_clear_run)
  then show ?thesis
    using assms(2) by (auto simp: after_clear_def settles_only_def)
qed

lemma invalidated_before_clear_completes:
  assumes "fresh_above s"
  shows "settles_only (\<lambda>l. False) (clear_job (fst (clear s))) (clear_reaction (fst (clear s)))
           (run (snd (clear s)) ins) (fst (clear s)) \<or>
         (\<exists>ins1 ins2. ins = ins1 @ ins2 \<and> DatabasePromise (run (snd (clear s)) ins1) = None)"
proof (induction ins rule: rev_induct)
  case Nil
  show ?case
  proof (cases "DatabasePromise s")
    case None
    then have "DatabasePromise (run (snd (clear s)) []) = None"
      by simp
    then show ?thesis by blast
  next
    case (Some p)
    then show ?thesis
      using clear_registers(2) [OF assms Some] by simp
  qed
next
  case (snoc i ins)
  let ?c = "fst (clear s)"
  let ?s = "run (snd (clear s)) ins"
  from snoc consider
      (pending) "settles_only (\<lambda>l. False) (clear_job ?c) (clear_reaction ?c) ?s ?c"
    | (invalidated) ins1 ins2 where "ins = ins1 @ ins2" "DatabasePromise (run (snd (clear s)) ins1) = None"
    by blast
  then show ?case
  proof cases
    case invalidated
    then have "ins @ [i] = ins1 @ (ins2 @ [i])" by simp
    then show ?thesis using invalidated(2) by blast
  next
    case pending
    have c: "?c < next_promise ?s"
      using after_clear_run [OF after_clear_clear [OF assms], of ins] by (simp add: after_clear_def)
    show ?thesis
    proof (cases "\<exists>j js. i = Tick \<and> jobs ?s = j # js \<and> job_settles j ?c")
      case True
      then obtain j js where i: "i = Tick" and j: "jobs ?s = j # js" and js: "job_settles j ?c"
        by blast
      have "clear_job ?c j"
        using pending j js by (auto simp: settles_only_def)
      then obtain out where "jobs ?s = ReactionJob ClearFinally ?c out # js"
        using j by (auto simp: clear_job_def)
      then have "DatabasePromise (step ?s Tick) = None"
        by (rule step_clear_job)
      then have "DatabasePromise (run (snd (clear s)) (ins @ [i])) = None"
        using i by simp
      moreover have "ins @ [i] = (ins @ [i]) @ []" by simp
      ultimately show ?thesis by blast
    next
      case False
      have "settles_only (\<lambda>l. False) (clear_job ?c) (clear_reaction ?c) (step ?s i) ?c"
      proof (rule settles_only_step [OF moves_clear pending])
        show "?c < next_promise ?s \<or> next_promise (step ?s i) \<le> ?c"
          using c by simp
      next
        fix j js
        assume "i = Tick" and "jobs ?s = j # js"
        then show "\<not> job_settles j ?c" using False by blast
      next
        fix tg ty cb
        assume "(tg, ty, cb) \<in> set (listeners ?s)"
        then show "\<not> callback_settles cb ?c"
          using pending by (auto simp: settles_only_def)
      qed
      then show ?thesis by simp
    qed
  qed
qed

lemma cache_stays_null_run:
  assumes "DatabasePromise s = None" and "\<forall>i \<in> set ins. \<not> is_operation i"
  shows "DatabasePromise (run s ins) = None"
  using assms(2)
proof (induction ins rule: rev_induct)
  case Nil
  show ?case using assms(1) by simp
next
  case (snoc i ins)
  then show ?case by (simp add: cache_stays_null)
qed

section \<open>Listeners are never removed\<close>


lemma listeners_resolve_with [simp]: "listeners (resolve_with d c s) = listeners s"
  by (cases c) simp_all







section \<open>The promise of a write follows the first terminal event of its transaction\<close>







section \<open>The promise an operation returns follows the promise of its steps\<close>


lemma followsI:
  assumes "d < next_promise s" and "p < next_promise s" and "d \<noteq> p"
    and "pstate s d = Pending \<or> pstate s d = pstate s p"
    and "\<And>tg ty cb. (tg, ty, cb) \<in> set (listeners s) \<Longrightarrow> \<not> callback_settles cb d"
    and "\<And>h out. ReactionJob h d out \<notin> set (jobs s)"
    and "\<And>d' out. ReactionJob (ResolveFunctions d) d' out \<in> set (jobs s) \<Longrightarrow>
           pstate s p = Settled out"
    and "\<And>q. q \<noteq> p \<Longrightarrow> ThenableJob d q \<notin> set (jobs s)"
    and "\<And>p' h. (h, d) \<notin> set (reactions s p')"
    and "\<And>p' d'. p' \<noteq> p \<Longrightarrow> (ResolveFunctions d, d') \<notin> set (reactions s p')"
    and "\<And>d'. (ResolveFunctions d, d') \<in> set (reactions s p) \<Longrightarrow> pstate s p = Pending"
  shows "follows s d p"
  unfolding follows_def using assms by blast

lemma followsD:
  assumes "follows s d p"
  shows "d < next_promise s" and "p < next_promise s" and "d \<noteq> p"
    and "pstate s d = Pending \<or> pstate s d = pstate s p"
    and "\<And>tg ty cb. (tg, ty, cb) \<in> set (listeners s) \<Longrightarrow> \<not> callback_settles cb d"
    and "\<And>h out. ReactionJob h d out \<notin> set (jobs s)"
    and "\<And>d' out. ReactionJob (ResolveFunctions d) d' out \<in> set (jobs s) \<Longrightarrow>
           pstate s p = Settled out"
    and "\<And>q. q \<noteq> p \<Longrightarrow> ThenableJob d q \<notin> set (jobs s)"
    and "\<And>p' h. (h, d) \<notin> set (reactions s p')"
    and "\<And>p' d'. p' \<noteq> p \<Longrightarrow> (ResolveFunctions d, d') \<notin> set (reactions s p')"
    and "\<And>d'. (ResolveFunctions d, d') \<in> set (reactions s p) \<Longrightarrow> pstate s p = Pending"
  using assms unfolding follows_def by blast+

lemma follows_frame:
  assumes f: "follows s d p"
    and n: "next_promise s \<le> next_promise s'"
    and ps: "pstate s' = pstate s" and rs: "reactions s' = reactions s"
    and js: "\<And>j. j \<in> set (jobs s') \<Longrightarrow> j \<in> set (jobs s) \<or> \<not> job_settles j d"
    and ls: "\<And>tg ty cb. (tg, ty, cb) \<in> set (listeners s') \<Longrightarrow>
           (tg, ty, cb) \<in> set (listeners s) \<or> \<not> callback_settles cb d"
  shows "follows s' d p"
proof (rule followsI)
  note D = followsD [OF f]
  show "d < next_promise s'" "p < next_promise s'" "d \<noteq> p"
    using D(1-3) n by simp_all
  show "pstate s' d = Pending \<or> pstate s' d = pstate s' p"
    using D(4) by (simp add: ps)
  show "\<And>tg ty cb. (tg, ty, cb) \<in> set (listeners s') \<Longrightarrow> \<not> callback_settles cb d"
    using ls D(5) by blast
  show "\<And>h out. ReactionJob h d out \<notin> set (jobs s')"
    using js D(6) by fastforce
  show "\<And>d' out. ReactionJob (ResolveFunctions d) d' out \<in> set (jobs s') \<Longrightarrow>
           pstate s' p = Settled out"
    using js D(7) unfolding ps by fastforce
  show "\<And>q. q \<noteq> p \<Longrightarrow> ThenableJob d q \<notin> set (jobs s')"
    using js D(8) by fastforce
  show "\<And>p' h. (h, d) \<notin> set (reactions s' p')"
    using D(9) unfolding rs by blast
  show "\<And>p' d'. p' \<noteq> p \<Longrightarrow> (ResolveFunctions d, d') \<notin> set (reactions s' p')"
    using D(10) unfolding rs by blast
  show "\<And>d'. (ResolveFunctions d, d') \<in> set (reactions s' p) \<Longrightarrow> pstate s' p = Pending"
    using D(11) unfolding rs ps by blast
qed

lemma follows_unaffected [simp]:
  "follows (console_assert b s) d p = follows s d p"
  "follows (forget_request r s) d p = follows s d p"
  "follows (commit t s) d p = follows s d p"
  "follows (discard t s) d p = follows s d p"
  "follows (s\<lparr>private_BackingStoreObject := b'\<rparr>) d p = follows s d p"
  "follows (s\<lparr>DatabasePromise := c'\<rparr>) d p = follows s d p"
  "follows (s\<lparr>staged := st'\<rparr>) d p = follows s d p"
  "follows (s\<lparr>entries := en'\<rparr>) d p = follows s d p"
  "follows (s\<lparr>calls := ca'\<rparr>) d p = follows s d p"
  "follows (s\<lparr>requests := rq'\<rparr>) d p = follows s d p"
  "follows (s\<lparr>next_request := nr'\<rparr>) d p = follows s d p"
  "follows (s\<lparr>next_transaction := nt'\<rparr>) d p = follows s d p"
  by (simp_all add: follows_def commit_def discard_def)




lemma follows_addASimpleEventListener:
  "follows s d p \<Longrightarrow> \<not> callback_settles cb d \<Longrightarrow> follows (addASimpleEventListener tg ty cb s) d p"
  by (rule follows_frame) auto
















section \<open>Reactions and jobs are not lost\<close>

lemma grows_refl [simp]: "grows s s"
  by (simp add: grows_def)

lemma grows_trans:
  assumes "grows s s'" and "grows s' s''"
  shows "grows s s''"
proof -
  have "settled_kept s s''"
    using assms settled_kept_trans unfolding grows_def by blast
  moreover have "set (jobs s) \<subseteq> set (jobs s'')"
    using assms unfolding grows_def by blast
  moreover have "(h, d) \<in> set (reactions s'' p) \<or> (\<exists>out. ReactionJob h d out \<in> set (jobs s''))"
    if "(h, d) \<in> set (reactions s p)" for p h d
  proof -
    from that assms(1) consider "(h, d) \<in> set (reactions s' p)"
      | out where "ReactionJob h d out \<in> set (jobs s')"
      unfolding grows_def by blast
    then show ?thesis
    proof cases
      case 1
      then show ?thesis using assms(2) unfolding grows_def by blast
    next
      case 2
      then show ?thesis using assms(2) unfolding grows_def by blast
    qed
  qed
  ultimately show ?thesis
    unfolding grows_def by blast
qed

lemma grows_same:
  "pstate s' = pstate s \<Longrightarrow> set (jobs s) \<subseteq> set (jobs s') \<Longrightarrow>
   (\<And>p. set (reactions s p) \<subseteq> set (reactions s' p)) \<Longrightarrow> grows s s'"
  unfolding grows_def by (simp add: settled_kept_same) blast

lemma grows_settle [simp]: "grows s (settle y out s)"
proof (cases "pstate s y")
  case (Settled old)
  then show ?thesis by (simp add: settle_def)
next
  case Pending
  have "settled_kept s (settle y out s)" by simp
  moreover have "set (jobs s) \<subseteq> set (jobs (settle y out s))"
    by (simp add: settle_def split: promise_state.splits)
  moreover have "(h, d) \<in> set (reactions (settle y out s) p) \<or>
      (\<exists>out'. ReactionJob h d out' \<in> set (jobs (settle y out s)))"
    if "(h, d) \<in> set (reactions s p)" for p h d
  proof (cases "p = y")
    case True
    then have "ReactionJob h d out \<in> set (jobs (settle y out s))"
      using that Pending by (force simp: settle_def)
    then show ?thesis by blast
  next
    case False
    then show ?thesis
      using that by (simp add: settle_def split: promise_state.splits)
  qed
  ultimately show ?thesis
    unfolding grows_def by blast
qed

lemma grows_then_promise [simp]: "grows s (snd (then_promise q h s))"
  by (rule grows_same)
     (auto simp: then_promise_def new_promise_def split: promise_state.splits)




lemma grows_initializeTheDatabasePromise [simp]: "grows s (initializeTheDatabasePromise s)"
  by (rule grows_same) simp_all


lemma grows_performADatabaseOperation [simp]: "grows s (snd (performADatabaseOperation m st s))"
proof (cases "DatabasePromise s")
  case None
  have "grows s (initializeTheDatabasePromise (console_assert (DatabaseName s \<noteq> None) s))"
    by (rule grows_same) simp_all
  then show ?thesis
    unfolding performADatabaseOperation_absent [OF None]
    using grows_trans [OF _ grows_then_promise] by simp
next
  case (Some c)
  have "grows s (console_assert (DatabaseName s \<noteq> None) s)"
    by (rule grows_same) simp_all
  then show ?thesis
    unfolding performADatabaseOperation_cached [OF Some]
    using grows_trans [OF _ grows_then_promise] by simp
qed

lemma grows_promise_reject [simp]: "grows s (snd (promise_reject e s))"
proof -
  have "grows s (s\<lparr>next_promise := Suc (next_promise s)\<rparr>)"
    by (rule grows_same) simp_all
  then show ?thesis
    using grows_trans [OF _ grows_settle] by (simp add: promise_reject_def new_promise_def)
qed

lemma grows_operation [simp]: "grows s (snd (operation m st db s))"
  by (rule grows_same) simp_all






section \<open>The returned promise stays linked to the promise of the steps\<close>






section \<open>The job of a write\<close>








section \<open>The callback of a clear waits for the promise it was registered on\<close>






lemma callback_waits_unaffected [simp]:
  "callback_waits (console_assert b s) c p = callback_waits s c p"
  "callback_waits (forget_request r s) c p = callback_waits s c p"
  "callback_waits (commit t s) c p = callback_waits s c p"
  "callback_waits (discard t s) c p = callback_waits s c p"
  "callback_waits (addASimpleEventListener tg ty cb s) c p = callback_waits s c p"
  "callback_waits (s\<lparr>private_BackingStoreObject := b'\<rparr>) c p = callback_waits s c p"
  "callback_waits (s\<lparr>DatabasePromise := c'\<rparr>) c p = callback_waits s c p"
  "callback_waits (s\<lparr>staged := st'\<rparr>) c p = callback_waits s c p"
  "callback_waits (s\<lparr>entries := en'\<rparr>) c p = callback_waits s c p"
  "callback_waits (s\<lparr>calls := ca'\<rparr>) c p = callback_waits s c p"
  "callback_waits (s\<lparr>requests := rq'\<rparr>) c p = callback_waits s c p"
  "callback_waits (s\<lparr>next_request := nr'\<rparr>) c p = callback_waits s c p"
  "callback_waits (s\<lparr>next_transaction := nt'\<rparr>) c p = callback_waits s c p"
  by (simp_all add: callback_waits_def commit_def discard_def)
















section \<open>Until then the callback stays registered\<close>





section \<open>How many jobs and reactions can settle a promise\<close>
















lemma single_unaffected [simp]:
  "single (console_assert b s) d = single s d"
  "single (forget_request r s) d = single s d"
  "single (commit t s) d = single s d"
  "single (discard t s) d = single s d"
  "single (s\<lparr>private_BackingStoreObject := b'\<rparr>) d = single s d"
  "single (s\<lparr>DatabasePromise := c'\<rparr>) d = single s d"
  "single (s\<lparr>staged := st'\<rparr>) d = single s d"
  "single (s\<lparr>entries := en'\<rparr>) d = single s d"
  "single (s\<lparr>calls := ca'\<rparr>) d = single s d"
  "single (s\<lparr>requests := rq'\<rparr>) d = single s d"
  "single (s\<lparr>next_request := nr'\<rparr>) d = single s d"
  "single (s\<lparr>next_transaction := nt'\<rparr>) d = single s d"
  by (simp_all add: single_def quiet_def jcount_def rcount_def commit_def discard_def)



















section \<open>The promise a write returns has one settler until its job runs\<close>







section \<open>Evaluating a schedule\<close>

lemmas model_defs =
  run_def set_op_def get_def delete_def clear_def performADatabaseOperation_def
  console_assert_def initializeTheDatabasePromise_def deletingTheDatabase_def
  addASimpleEventListener_def new_promise_def then_promise_def settle_def promise_reject_def
  dispatch_def request_succeeds_def request_fails_def transaction_completes_def
  transaction_errors_def transaction_aborts_def commit_def discard_def forget_request_def
  operation_def set_steps_def get_steps_def delete_steps_def store_put_def store_delete_def
  store_get_def clear_callback_def database_name_def KVStorageArea_def Let_def case_prod_beta

lemma set_then_get:
  assumes "allowedAsAKey key" and "serializable val" and "val \<noteq> Undefined"
  shows "fst (set_op key val (KVStorageArea name stored)) = Inr 1"
    and "pstate (run (KVStorageArea name stored)
            [CallSet key val, RequestSucceeds 0, Tick, Tick, TransactionCompletes 0, Tick]) 1 =
          Settled (Fulfilled Undefined)"
    and "fst (get key (run (KVStorageArea name stored)
            [CallSet key val, RequestSucceeds 0, Tick, Tick, TransactionCompletes 0, Tick])) =
          Inr 4"
    and "pstate (run (KVStorageArea name stored)
            [CallSet key val, RequestSucceeds 0, Tick, Tick, TransactionCompletes 0, Tick,
             CallGet key, Tick, Tick, RequestSucceeds 1, Tick]) 4 =
          Settled (Fulfilled val)"
  using assms by (simp_all add: model_defs)

lemma get_without_entry:
  assumes "allowedAsAKey key" and "stored key = None"
  shows "fst (get key (KVStorageArea name stored)) = Inr 1"
    and "pstate (run (KVStorageArea name stored)
            [CallGet key, RequestSucceeds 0, Tick, Tick, RequestSucceeds 1, Tick]) 1 =
          Settled (Fulfilled Undefined)"
  using assms by (simp_all add: model_defs)

section \<open>The claims\<close>

text \<open>
  C10.  For every area made by the constructor and every interleaving of calls, promise
  jobs and engine events, the database name is still the string \<open>"kv-storage:"\<close> followed
  by the area's name, no assertion has failed, and the assertion of a further
  \<open>performADatabaseOperation\<close> holds as well.
\<close>

theorem database_name_assertion_holds:
  "DatabaseName (run (KVStorageArea name stored) ins) = Some (''kv-storage:'' @ name) \<and>
   assertion_failures (run (KVStorageArea name stored) ins) = 0 \<and>
   assertion_failures
     (snd (performADatabaseOperation m st (run (KVStorageArea name stored) ins))) = 0"
proof -
  have n: "DatabaseName (KVStorageArea name stored) = Some (''kv-storage:'' @ name)"
    and a: "assertion_failures (KVStorageArea name stored) = 0"
    by (simp_all add: KVStorageArea_def)
  have "assertion_failures (run (KVStorageArea name stored) ins) = 0"
    using run_assertion_failures [of "KVStorageArea name stored" ins] n a by simp
  then show ?thesis
    using n by (simp add: slots_performADatabaseOperation)
qed

text \<open>
  C9.  The getter does not read the name the constructor stored.  In every state an area
  can reach, whatever was called before, \<open>backingStore\<close> returns a descriptor whose
  \<open>database\<close> is \<open>undefined\<close>, while the slot \<open>DatabaseName\<close> holds \<open>"kv-storage:"\<close> followed by
  the area's name: the getter reads the private field \<open>#DatabaseName\<close>, which nothing
  assigns.
\<close>

theorem backingStore_database_is_undefined:
  "fst (backingStore (run (KVStorageArea name stored) ins)) =
     \<lparr>database = None, store = ''store'', version = 1, frozen = True\<rparr> \<and>
   DatabaseName (run (KVStorageArea name stored) ins) = Some (''kv-storage:'' @ name)"
proof -
  have b: "private_BackingStoreObject (KVStorageArea name stored) = None"
    and n: "private_DatabaseName (KVStorageArea name stored) = None"
    and d: "DatabaseName (KVStorageArea name stored) = Some (''kv-storage:'' @ name)"
    by (simp_all add: KVStorageArea_def)
  have 1: "fst (backingStore (run (KVStorageArea name stored) ins)) =
      \<lparr>database = None, store = ''store'', version = 1, frozen = True\<rparr>"
    using run_private_BackingStoreObject [OF b, of ins] n
    by (auto simp: backingStore_def Let_def Object_freeze_def)
  have 2: "DatabaseName (run (KVStorageArea name stored) ins) = Some (''kv-storage:'' @ name)"
    using d by simp
  show ?thesis
    using 1 2 by blast
qed

text \<open>
  C4.  The key \<open>undefined\<close> is not allowed as a key.  On a new area, \<open>delete\<close> with that
  key returns a promise already rejected with a \<open>DataError\<close> and leaves the cached
  database promise and the engine untouched.  \<open>set\<close> with the same key starts an open,
  caches its promise and returns a pending promise; once the open has succeeded a
  read-write transaction is created, \<open>put\<close> is called, and only then is the promise
  rejected with the \<open>DataError\<close> the engine throws.
\<close>

theorem set_invalid_key_opens_the_database:
  "\<not> allowedAsAKey Undefined \<and>
   fst (delete Undefined (KVStorageArea ''a'' (\<lambda>k. None))) = Inr 0 \<and>
   pstate (snd (delete Undefined (KVStorageArea ''a'' (\<lambda>k. None)))) 0 =
     Settled (Rejected (DOMException ''DataError'')) \<and>
   DatabasePromise (snd (delete Undefined (KVStorageArea ''a'' (\<lambda>k. None)))) = None \<and>
   calls (snd (delete Undefined (KVStorageArea ''a'' (\<lambda>k. None)))) = [] \<and>
   fst (set_op Undefined (Number 1) (KVStorageArea ''a'' (\<lambda>k. None))) = Inr 1 \<and>
   pstate (snd (set_op Undefined (Number 1) (KVStorageArea ''a'' (\<lambda>k. None)))) 1 = Pending \<and>
   DatabasePromise (snd (set_op Undefined (Number 1) (KVStorageArea ''a'' (\<lambda>k. None)))) = Some 0 \<and>
   calls (snd (set_op Undefined (Number 1) (KVStorageArea ''a'' (\<lambda>k. None)))) =
     [OpenCall ''kv-storage:a''] \<and>
   calls (run (KVStorageArea ''a'' (\<lambda>k. None))
            [CallSet Undefined (Number 1), RequestSucceeds 0, Tick]) =
     [OpenCall ''kv-storage:a'', TransactionCall (IDBDatabase 0) Readwrite,
      PutCall 0 (Number 1) Undefined] \<and>
   pstate (run (KVStorageArea ''a'' (\<lambda>k. None))
             [CallSet Undefined (Number 1), RequestSucceeds 0, Tick]) 1 =
     Settled (Rejected (DOMException ''DataError''))"
  by code_simp

text \<open>
  C6.  The key \<open>null\<close> is not allowed as a key.  On a new area, \<open>delete\<close> with that key
  is rejected at once and the engine sees no call; \<open>set\<close> with that key and the value
  \<open>undefined\<close> opens the database, and after the open has succeeded it creates a
  read-write transaction and calls the store's \<open>delete\<close> before its promise is rejected.
\<close>

theorem set_undefined_differs_from_delete_on_invalid_key:
  "\<not> allowedAsAKey Null \<and>
   pstate (snd (delete Null (KVStorageArea ''a'' (\<lambda>k. None)))) 0 =
     Settled (Rejected (DOMException ''DataError'')) \<and>
   calls (run (KVStorageArea ''a'' (\<lambda>k. None)) [CallDelete Null, RequestSucceeds 0, Tick]) = [] \<and>
   fst (set_op Null Undefined (KVStorageArea ''a'' (\<lambda>k. None))) = Inr 1 \<and>
   pstate (snd (set_op Null Undefined (KVStorageArea ''a'' (\<lambda>k. None)))) 1 = Pending \<and>
   calls (snd (set_op Null Undefined (KVStorageArea ''a'' (\<lambda>k. None)))) =
     [OpenCall ''kv-storage:a''] \<and>
   calls (run (KVStorageArea ''a'' (\<lambda>k. None))
            [CallSet Null Undefined, RequestSucceeds 0, Tick]) =
     [OpenCall ''kv-storage:a'', TransactionCall (IDBDatabase 0) Readwrite, DeleteCall 0 Null] \<and>
   pstate (run (KVStorageArea ''a'' (\<lambda>k. None))
             [CallSet Null Undefined, RequestSucceeds 0, Tick]) 1 =
     Settled (Rejected (DOMException ''DataError''))"
  by code_simp

text \<open>
  C3.  A \<open>get\<close> starts the open (promise 0) and \<open>clear\<close> is called while it is in
  flight; \<open>clear\<close> returns promise 2.  The open fails.  The callback of \<open>clear\<close> runs,
  resets the cache and issues the delete-database request, which succeeds (promise 3 is
  fulfilled).  The promise \<open>clear\<close> returned is nevertheless rejected, with the error of
  the open.  When the open succeeds instead, the promise \<open>clear\<close> returned is fulfilled
  with the database handle.
\<close>

theorem clear_rejects_with_the_error_of_the_open:
  "fst (clear (run (KVStorageArea ''a'' (\<lambda>k. None)) [CallGet (Number 1)])) = 2 \<and>
   calls (run (KVStorageArea ''a'' (\<lambda>k. None))
            [CallGet (Number 1), CallClear, RequestFails 0 (DOMException ''UnknownError''),
             Tick, Tick, Tick, RequestSucceeds 1, Tick, Tick]) =
     [OpenCall ''kv-storage:a'', DeleteDatabaseCall ''kv-storage:a''] \<and>
   DatabasePromise (run (KVStorageArea ''a'' (\<lambda>k. None))
            [CallGet (Number 1), CallClear, RequestFails 0 (DOMException ''UnknownError''),
             Tick, Tick, Tick, RequestSucceeds 1, Tick, Tick]) = None \<and>
   pstate (run (KVStorageArea ''a'' (\<lambda>k. None))
            [CallGet (Number 1), CallClear, RequestFails 0 (DOMException ''UnknownError''),
             Tick, Tick, Tick, RequestSucceeds 1, Tick, Tick]) 3 =
     Settled (Fulfilled Undefined) \<and>
   pstate (run (KVStorageArea ''a'' (\<lambda>k. None))
            [CallGet (Number 1), CallClear, RequestFails 0 (DOMException ''UnknownError''),
             Tick, Tick, Tick, RequestSucceeds 1, Tick, Tick]) 2 =
     Settled (Rejected (DOMException ''UnknownError'')) \<and>
   pstate (run (KVStorageArea ''a'' (\<lambda>k. None))
            [CallGet (Number 1), CallClear, RequestSucceeds 0,
             Tick, Tick, Tick, Tick, RequestSucceeds 2, Tick, Tick, Tick]) 2 =
     Settled (Fulfilled (IDBDatabase 0))"
  by code_simp

lemma performADatabaseOperation_shares_the_open:
  assumes "open_inv s" and "DatabaseName s = Some n"
  shows "length (opens_in_flight s) \<le> 1 \<and>
    (case DatabasePromise s of
       None \<Rightarrow>
         opens_in_flight s = [] \<and>
         calls (snd (performADatabaseOperation m st s)) = calls s @ [OpenCall n] \<and>
         opens_in_flight (snd (performADatabaseOperation m st s)) = [next_request s] \<and>
         DatabasePromise (snd (performADatabaseOperation m st s)) = Some (next_promise s)
     | Some p \<Rightarrow>
         performADatabaseOperation m st s =
           (Inr (fst (then_promise p (Operation m st) s)),
            snd (then_promise p (Operation m st) s)) \<and>
         calls (snd (performADatabaseOperation m st s)) = calls s \<and>
         opens_in_flight (snd (performADatabaseOperation m st s)) = opens_in_flight s \<and>
         DatabasePromise (snd (performADatabaseOperation m st s)) = Some p)"
proof -
  have one: "length (opens_in_flight s) \<le> 1"
    using assms(1) by (simp add: open_inv_def single_open_def)
  have ok: "console_assert (DatabaseName s \<noteq> None) s = s"
    using assms(2) by (simp add: console_assert_def)
  show ?thesis
  proof (cases "DatabasePromise s")
    case None
    then have "opens_in_flight s = []"
      using assms(1) by (simp add: open_inv_def single_open_def)
    then show ?thesis
      using None one assms(2)
      unfolding performADatabaseOperation_absent [OF None] ok
      by (simp add: opens_in_flight_def database_name_def)
  next
    case (Some p)
    then show ?thesis
      using one
      unfolding performADatabaseOperation_cached [OF Some] ok
      by (simp add: opens_in_flight_def)
  qed
qed

text \<open>
  C1.  Take any area and any interleaving of \<open>get\<close>, \<open>set\<close> and \<open>delete\<close> calls, reads of
  the descriptor, promise jobs and engine events (no \<open>clear\<close>).  In the state reached,
  at most one open request is in flight.  When the cached database promise is \<open>null\<close>
  no open is in flight, and \<open>performADatabaseOperation\<close> starts exactly one open and caches
  its promise.  When a promise \<open>p\<close> is cached, \<open>performADatabaseOperation\<close> makes no call
  to the engine, starts no open and leaves \<open>p\<close> cached: the promise it returns is the one
  \<open>then\<close> derives from the shared promise \<open>p\<close>.
\<close>

theorem at_most_one_open_in_flight:
  assumes "CallClear \<notin> set ins"
  shows "length (opens_in_flight (run (KVStorageArea name stored) ins)) \<le> 1 \<and>
    (case DatabasePromise (run (KVStorageArea name stored) ins) of
       None \<Rightarrow>
         opens_in_flight (run (KVStorageArea name stored) ins) = [] \<and>
         calls (snd (performADatabaseOperation m st (run (KVStorageArea name stored) ins))) =
           calls (run (KVStorageArea name stored) ins) @ [OpenCall (''kv-storage:'' @ name)] \<and>
         opens_in_flight (snd (performADatabaseOperation m st (run (KVStorageArea name stored) ins))) =
           [next_request (run (KVStorageArea name stored) ins)] \<and>
         DatabasePromise (snd (performADatabaseOperation m st (run (KVStorageArea name stored) ins))) =
           Some (next_promise (run (KVStorageArea name stored) ins))
     | Some p \<Rightarrow>
         performADatabaseOperation m st (run (KVStorageArea name stored) ins) =
           (Inr (fst (then_promise p (Operation m st) (run (KVStorageArea name stored) ins))),
            snd (then_promise p (Operation m st) (run (KVStorageArea name stored) ins))) \<and>
         calls (snd (performADatabaseOperation m st (run (KVStorageArea name stored) ins))) =
           calls (run (KVStorageArea name stored) ins) \<and>
         opens_in_flight (snd (performADatabaseOperation m st (run (KVStorageArea name stored) ins))) =
           opens_in_flight (run (KVStorageArea name stored) ins) \<and>
         DatabasePromise (snd (performADatabaseOperation m st (run (KVStorageArea name stored) ins))) =
           Some p)"
proof -
  have inv: "open_inv (run (KVStorageArea name stored) ins)"
    using open_inv_run [OF assms] by simp
  have name: "DatabaseName (run (KVStorageArea name stored) ins) = Some (''kv-storage:'' @ name)"
    by (simp add: KVStorageArea_def)
  show ?thesis
    by (rule performADatabaseOperation_shares_the_open [OF inv name])
qed

theorem at_most_one_open_in_flight_witness:
  "CallClear \<notin> set [CallGet (Number 1), CallSet (Number 2) (Str ''x''), CallDelete (Number 1)] \<and>
   opens_in_flight (run (KVStorageArea ''a'' (\<lambda>k. None))
     [CallGet (Number 1), CallSet (Number 2) (Str ''x''), CallDelete (Number 1)]) = [0] \<and>
   length (opens_in_flight (run (KVStorageArea ''a'' (\<lambda>k. None))
     [CallGet (Number 1), CallSet (Number 2) (Str ''x''), CallDelete (Number 1)])) \<le> 1"
proof -
  have h: "CallClear \<notin> set [CallGet (Number 1), CallSet (Number 2) (Str ''x''), CallDelete (Number 1)]"
    by simp
  have e: "opens_in_flight (run (KVStorageArea ''a'' (\<lambda>k. None))
     [CallGet (Number 1), CallSet (Number 2) (Str ''x''), CallDelete (Number 1)]) = [0]"
    by code_simp
  show ?thesis
    using h e at_most_one_open_in_flight [OF h, of "''a''" "\<lambda>k. None"] by simp
qed



text \<open>
  C8.  On a new area over a store with any earlier entries, take a valid key and a
  serializable value other than \<open>undefined\<close>.  \<open>set\<close> returns promise 1; the open
  succeeds, the jobs run, the transaction completes, and promise 1 is fulfilled with
  \<open>undefined\<close>.  \<open>get\<close> with the same key then returns promise 4; its jobs run, its
  request succeeds, and promise 4 is fulfilled with the value that was set (values are
  compared structurally).  And on a new area whose store has no entry for a valid key,
  \<open>get\<close> returns promise 1, which is fulfilled with \<open>undefined\<close>.
\<close>

theorem set_then_get_round_trip:
  assumes "allowedAsAKey key" and "serializable val" and "val \<noteq> Undefined"
    and "allowedAsAKey key'" and "stored key' = None"
  shows "fst (set_op key val (KVStorageArea name stored)) = Inr 1 \<and>
    pstate (run (KVStorageArea name stored)
      [CallSet key val, RequestSucceeds 0, Tick, Tick, TransactionCompletes 0, Tick]) 1 =
      Settled (Fulfilled Undefined) \<and>
    fst (get key (run (KVStorageArea name stored)
      [CallSet key val, RequestSucceeds 0, Tick, Tick, TransactionCompletes 0, Tick])) = Inr 4 \<and>
    pstate (run (KVStorageArea name stored)
      [CallSet key val, RequestSucceeds 0, Tick, Tick, TransactionCompletes 0, Tick,
       CallGet key, Tick, Tick, RequestSucceeds 1, Tick]) 4 =
      Settled (Fulfilled val) \<and>
    fst (get key' (KVStorageArea name stored)) = Inr 1 \<and>
    pstate (run (KVStorageArea name stored)
      [CallGet key', RequestSucceeds 0, Tick, Tick, RequestSucceeds 1, Tick]) 1 =
      Settled (Fulfilled Undefined)"
  using set_then_get [OF assms(1-3), of name stored]
    get_without_entry [where key = key' and stored = stored and name = name, OF assms(4,5)]
  by (intro conjI)

theorem set_then_get_round_trip_witness:
  "allowedAsAKey (Number 1) \<and> serializable (Array [Str ''x'', Number 2]) \<and>
   Array [Str ''x'', Number 2] \<noteq> Undefined \<and> allowedAsAKey (Str ''k'') \<and>
   pstate (run (KVStorageArea ''sessions'' (\<lambda>k. None))
      [CallSet (Number 1) (Array [Str ''x'', Number 2]), RequestSucceeds 0, Tick, Tick,
       TransactionCompletes 0, Tick, CallGet (Number 1), Tick, Tick, RequestSucceeds 1, Tick]) 4 =
      Settled (Fulfilled (Array [Str ''x'', Number 2])) \<and>
   pstate (run (KVStorageArea ''sessions'' (\<lambda>k. None))
      [CallGet (Str ''k''), RequestSucceeds 0, Tick, Tick, RequestSucceeds 1, Tick]) 1 =
      Settled (Fulfilled Undefined)"
proof -
  have a: "allowedAsAKey (Number 1)" and b: "serializable (Array [Str ''x'', Number 2])"
    and c: "Array [Str ''x'', Number 2] \<noteq> Undefined" and d: "allowedAsAKey (Str ''k'')"
    and e: "(\<lambda>k. None) (Str ''k'') = (None :: jsval option)"
    by simp_all
  show ?thesis
    using a b c d
      set_then_get_round_trip [where key = "Number 1" and val = "Array [Str ''x'', Number 2]"
        and key' = "Str ''k''" and stored = "\<lambda>k. None" and name = "''sessions''",
        OF a b c d e]
    by simp
qed

text \<open>
  C5, as amended.  Take any state an area can reach and call \<open>clear\<close>; then let anything
  happen, in any order, calls of \<open>get\<close>, \<open>set\<close>, \<open>delete\<close> and \<open>clear\<close> included.  Once the
  promise that \<open>clear\<close> returned is settled: the cache does not hold the promise it held
  when \<open>clear\<close> was called; it is \<open>null\<close> or holds a promise made after the call; the cache
  was \<open>null\<close> at some moment before; and if no \<open>get\<close>, \<open>set\<close> or \<open>delete\<close> was called from a
  moment the cache was \<open>null\<close>, it is \<open>null\<close> now, and the next
  \<open>performADatabaseOperation\<close> (the next \<open>get\<close>, \<open>set\<close> or \<open>delete\<close>) starts a new open and
  caches a new promise.
\<close>

theorem clear_then_fresh_open:
  assumes "pstate (run (snd (clear (run (KVStorageArea name stored) before))) ins)
             (fst (clear (run (KVStorageArea name stored) before))) = Settled out"
  shows "(\<forall>p. DatabasePromise (run (KVStorageArea name stored) before) = Some p \<longrightarrow>
            DatabasePromise (run (snd (clear (run (KVStorageArea name stored) before))) ins) \<noteq>
              Some p) \<and>
    (DatabasePromise (run (snd (clear (run (KVStorageArea name stored) before))) ins) = None \<or>
     (\<exists>q. DatabasePromise (run (snd (clear (run (KVStorageArea name stored) before))) ins) =
            Some q \<and>
          fst (clear (run (KVStorageArea name stored) before)) < q)) \<and>
    (\<exists>ins1 ins2. ins = ins1 @ ins2 \<and>
       DatabasePromise (run (snd (clear (run (KVStorageArea name stored) before))) ins1) = None) \<and>
    (\<forall>ins1 ins2. ins = ins1 @ ins2 \<and>
       DatabasePromise (run (snd (clear (run (KVStorageArea name stored) before))) ins1) = None \<and>
       (\<forall>i \<in> set ins2. \<not> is_operation i) \<longrightarrow>
       DatabasePromise (run (snd (clear (run (KVStorageArea name stored) before))) ins) = None \<and>
       calls (snd (performADatabaseOperation m st
                (run (snd (clear (run (KVStorageArea name stored) before))) ins))) =
         calls (run (snd (clear (run (KVStorageArea name stored) before))) ins) @
           [OpenCall (''kv-storage:'' @ name)] \<and>
       DatabasePromise (snd (performADatabaseOperation m st
                (run (snd (clear (run (KVStorageArea name stored) before))) ins))) =
         Some (next_promise (run (snd (clear (run (KVStorageArea name stored) before))) ins)))"
proof -
  let ?s = "run (KVStorageArea name stored) before"
  let ?c = "fst (clear ?s)"
  let ?s' = "run (snd (clear ?s)) ins"
  have f: "fresh_above ?s"
    by (intro fresh_above_run fresh_above_KVStorageArea)
  have a: "cache_allocated ?s"
    by (intro cache_allocated_run cache_allocated_KVStorageArea)
  have l: "later_open ?s' ?c"
    using f assms by (rule later_open_when_clear_completes)
  have 1: "DatabasePromise ?s' \<noteq> Some p" if "DatabasePromise ?s = Some p" for p
  proof -
    have "p < next_promise ?s"
      using a that by (simp add: cache_allocated_def)
    moreover have "?c = next_promise ?s"
      using that by (simp add: clear_cached)
    ultimately show ?thesis
      using l by (auto simp: later_open_def)
  qed
  have 2: "DatabasePromise ?s' = None \<or> (\<exists>q. DatabasePromise ?s' = Some q \<and> ?c < q)"
    using l by (cases "DatabasePromise ?s'") (simp_all add: later_open_def)
  have 3: "\<exists>ins1 ins2. ins = ins1 @ ins2 \<and> DatabasePromise (run (snd (clear ?s)) ins1) = None"
  proof -
    have "\<not> settles_only (\<lambda>l. False) (clear_job ?c) (clear_reaction ?c) ?s' ?c"
      using assms by (simp add: settles_only_def)
    then show ?thesis
      using invalidated_before_clear_completes [OF f, of ins] by blast
  qed
  have 4: "DatabasePromise ?s' = None \<and>
      calls (snd (performADatabaseOperation m st ?s')) =
        calls ?s' @ [OpenCall (''kv-storage:'' @ name)] \<and>
      DatabasePromise (snd (performADatabaseOperation m st ?s')) = Some (next_promise ?s')"
    if "ins = ins1 @ ins2" and "DatabasePromise (run (snd (clear ?s)) ins1) = None"
      and "\<forall>i \<in> set ins2. \<not> is_operation i" for ins1 ins2
  proof -
    have none: "DatabasePromise ?s' = None"
      using cache_stays_null_run [OF that(2,3)] that(1) by (simp add: run_append)
    have "DatabaseName (snd (clear ?s)) = Some (''kv-storage:'' @ name)"
      using step_DatabaseName [of ?s CallClear] by (simp add: KVStorageArea_def)
    then have "database_name ?s' = ''kv-storage:'' @ name"
      by (simp add: database_name_def)
    then show ?thesis
      using none by (simp add: performADatabaseOperation_absent [OF none] database_name_def)
  qed
  have every: "\<forall>p. DatabasePromise ?s = Some p \<longrightarrow> DatabasePromise ?s' \<noteq> Some p"
    using 1 by blast
  have later: "\<forall>ins1 ins2. ins = ins1 @ ins2 \<and>
       DatabasePromise (run (snd (clear ?s)) ins1) = None \<and>
       (\<forall>i \<in> set ins2. \<not> is_operation i) \<longrightarrow>
       DatabasePromise ?s' = None \<and>
       calls (snd (performADatabaseOperation m st ?s')) =
         calls ?s' @ [OpenCall (''kv-storage:'' @ name)] \<and>
       DatabasePromise (snd (performADatabaseOperation m st ?s')) = Some (next_promise ?s')"
  proof (intro allI impI)
    fix ins1 ins2
    assume "ins = ins1 @ ins2 \<and> DatabasePromise (run (snd (clear ?s)) ins1) = None \<and>
       (\<forall>i \<in> set ins2. \<not> is_operation i)"
    then have "ins = ins1 @ ins2" and "DatabasePromise (run (snd (clear ?s)) ins1) = None"
      and "\<forall>i \<in> set ins2. \<not> is_operation i"
      by simp_all
    then show "DatabasePromise ?s' = None \<and>
       calls (snd (performADatabaseOperation m st ?s')) =
         calls ?s' @ [OpenCall (''kv-storage:'' @ name)] \<and>
       DatabasePromise (snd (performADatabaseOperation m st ?s')) = Some (next_promise ?s')"
      by (rule 4)
  qed
  show ?thesis
    by (intro conjI every 2 3 later)
qed

theorem clear_then_fresh_open_witness:
  "fst (clear (run (KVStorageArea ''a'' (\<lambda>k. None)) [CallGet (Number 1)])) = 2 \<and>
   DatabasePromise (run (KVStorageArea ''a'' (\<lambda>k. None)) [CallGet (Number 1)]) = Some 0 \<and>
   pstate (run (snd (clear (run (KVStorageArea ''a'' (\<lambda>k. None)) [CallGet (Number 1)])))
      [CallSet (Number 2) (Str ''x''), RequestSucceeds 0, Tick, Tick,
       Tick, Tick, Tick, Tick, RequestSucceeds 2, Tick, Tick, Tick]) 2 =
     Settled (Fulfilled (IDBDatabase 0)) \<and>
   DatabasePromise (run (snd (clear (run (KVStorageArea ''a'' (\<lambda>k. None)) [CallGet (Number 1)])))
      [CallSet (Number 2) (Str ''x''), RequestSucceeds 0, Tick, Tick]) = None \<and>
   DatabasePromise (run (snd (clear (run (KVStorageArea ''a'' (\<lambda>k. None)) [CallGet (Number 1)])))
      [CallSet (Number 2) (Str ''x''), RequestSucceeds 0, Tick, Tick,
       Tick, Tick, Tick, Tick, RequestSucceeds 2, Tick, Tick, Tick]) = None"
proof -
  let ?s = "run (KVStorageArea ''a'' (\<lambda>k. None)) [CallGet (Number 1)]"
  let ?ins1 = "[CallSet (Number 2) (Str ''x''), RequestSucceeds 0, Tick, Tick]"
  let ?ins2 = "[Tick, Tick, Tick, Tick, RequestSucceeds 2, Tick, Tick, Tick]"
  let ?ins = "[CallSet (Number 2) (Str ''x''), RequestSucceeds 0, Tick, Tick,
       Tick, Tick, Tick, Tick, RequestSucceeds 2, Tick, Tick, Tick]"
  have a: "\<forall>i \<in> set ?ins2. \<not> is_operation i" by simp
  have b: "fst (clear ?s) = 2" by code_simp
  have b': "DatabasePromise ?s = Some 0" by code_simp
  have c: "pstate (run (snd (clear ?s)) ?ins) 2 = Settled (Fulfilled (IDBDatabase 0))"
    by code_simp
  have c': "pstate (run (snd (clear ?s)) ?ins) (fst (clear ?s)) = Settled (Fulfilled (IDBDatabase 0))"
    using c by (simp only: b)
  have e: "DatabasePromise (run (snd (clear ?s)) ?ins1) = None" by code_simp
  have s: "?ins = ?ins1 @ ?ins2" by simp
  note T = clear_then_fresh_open [OF c', of Readonly "GetSteps (Number 1)", THEN conjunct2,
      THEN conjunct2, THEN conjunct2, rule_format, of ?ins1 ?ins2]
  have d: "DatabasePromise (run (snd (clear ?s)) ?ins) = None"
    using T s e a by blast
  show ?thesis
    by (intro conjI b b' c e d)
qed

text \<open>
  C5, as stated, fails: \<open>clear\<close> on a new area returns promise 0; a \<open>get\<close> is called
  before the delete-database request succeeds.  When promise 0 is fulfilled the cache holds
  promise 1 of the open that the \<open>get\<close> started, and the next \<open>set\<close> starts no open.
\<close>

theorem cache_not_null_when_clear_completes:
  "fst (clear (KVStorageArea ''a'' (\<lambda>k. None))) = 0 \<and>
   pstate (run (KVStorageArea ''a'' (\<lambda>k. None))
             [CallClear, CallGet (Number 1), RequestSucceeds 0]) 0 =
     Settled (Fulfilled Undefined) \<and>
   DatabasePromise (run (KVStorageArea ''a'' (\<lambda>k. None))
             [CallClear, CallGet (Number 1), RequestSucceeds 0]) = Some 1 \<and>
   calls (run (KVStorageArea ''a'' (\<lambda>k. None))
             [CallClear, CallGet (Number 1), RequestSucceeds 0]) =
     [DeleteDatabaseCall ''kv-storage:a'', OpenCall ''kv-storage:a''] \<and>
   calls (run (KVStorageArea ''a'' (\<lambda>k. None))
             [CallClear, CallGet (Number 1), RequestSucceeds 0, CallSet (Number 1) (Str ''x'')]) =
     [DeleteDatabaseCall ''kv-storage:a'', OpenCall ''kv-storage:a'']"
  by code_simp




end
